theory Spec2Isabelle
  imports Main "HOL-Library.Word"
begin

unbundle bit_operations_syntax

section \<open>Streams, text and the read loop shared by both tools\<close>

text \<open>
  Both programs read their input one byte at a time with \<^verbatim>\<open>fgetc\<close> until it
  returns -1.  An input stream is the list of bytes \<^verbatim>\<open>fgetc\<close> delivers before that;
  every output stream is the list of bytes written to it so far.

  The C types \<^verbatim>\<open>int\<close> and \<^verbatim>\<open>unsigned int\<close> are 32 bits wide, as on every ILP32 and
  LP64 target.  Counters of either type are 32-bit words whose increment wraps; this is
  what ISO C prescribes for \<^verbatim>\<open>unsigned int\<close> and what the compiled increment of an
  \<^verbatim>\<open>int\<close> does on two's-complement hardware.
\<close>

type_synonym byte = "8 word"

definition bytes_of :: "string \<Rightarrow> byte list" where
  "bytes_of s = map (\<lambda>c. of_nat (of_char c)) s"

definition NL :: byte where
  "NL = 0x0a"

definition DQUOTE :: byte where
  "DQUOTE = 0x22"

text \<open>Digits of a number in a base, most significant first, as \<^verbatim>\<open>printf\<close> produces them.\<close>

definition digit_char :: "nat \<Rightarrow> byte" where
  "digit_char d = (if d < 10 then 0x30 + of_nat d else 0x61 + of_nat (d - 10))"

function digits_of :: "nat \<Rightarrow> nat \<Rightarrow> byte list" where
  "digits_of b n =
     (if b < 2 \<or> n < b then [digit_char n]
      else digits_of b (n div b) @ [digit_char (n mod b)])"
  by pat_completeness auto
termination
  by (relation "measure snd") auto

declare digits_of.simps [simp del]

text \<open>\<^verbatim>\<open>%0wx\<close>, \<^verbatim>\<open>%u\<close> and \<^verbatim>\<open>%d\<close> (the last for the non-negative values it is used on).\<close>

definition fmt_x :: "nat \<Rightarrow> nat \<Rightarrow> byte list" where
  "fmt_x w n = replicate (w - length (digits_of 16 n)) 0x30 @ digits_of 16 n"

definition fmt_u :: "nat \<Rightarrow> byte list" where
  "fmt_u n = digits_of 10 n"

definition fmt_d :: "int \<Rightarrow> byte list" where
  "fmt_d i = (if i < 0 then 0x2d # digits_of 10 (nat (- i)) else digits_of 10 (nat i))"

text \<open>
  One pass of a loop body either falls through to the next \<^verbatim>\<open>fgetc\<close>, executes a
  \<^verbatim>\<open>return\<close>, or has no defined behaviour (a store outside an array).
\<close>

datatype 'v step = Continue 'v | Return int 'v | Undefined

text \<open>
  How \<^verbatim>\<open>while ((ch = fgetc(infile)) != -1) { ... }\<close> ends: the stream is exhausted, the
  body returned (the unread bytes stay in the stream), or the run left defined behaviour.
\<close>

datatype 'v loop_end = Exhausted 'v | Returned int 'v "byte list" | Crashed

fun read_loop :: "('v \<Rightarrow> byte \<Rightarrow> 'v step) \<Rightarrow> 'v \<Rightarrow> byte list \<Rightarrow> 'v loop_end" where
  "read_loop body v [] = Exhausted v"
| "read_loop body v (ch # rest) =
     (case body v ch of
        Continue v' \<Rightarrow> read_loop body v' rest
      | Return r v' \<Rightarrow> Returned r v' rest
      | Undefined \<Rightarrow> Crashed)"

text \<open>
  The variables after the body has consumed every byte of a list, each pass falling
  through to the next \<^verbatim>\<open>fgetc\<close>; \<open>None\<close> when some pass returned or had no defined
  behaviour.
\<close>

fun feed :: "('v \<Rightarrow> byte \<Rightarrow> 'v step) \<Rightarrow> 'v \<Rightarrow> byte list \<Rightarrow> 'v option" where
  "feed body v [] = Some v"
| "feed body v (ch # rest) =
     (case body v ch of
        Continue v' \<Rightarrow> feed body v' rest
      | Return r v' \<Rightarrow> None
      | Undefined \<Rightarrow> None)"

section \<open>edtasmcvt: EDTASM source to plain text\<close>

definition HEADERCHAR :: byte where
  "HEADERCHAR = 0xd3"

definition EOLCHAR :: byte where
  "EOLCHAR = 0x0d"

definition EOFCHAR :: byte where
  "EOFCHAR = 0x1a"

definition LINENUMCHAR :: "byte \<Rightarrow> bool" where
  "LINENUMCHAR c \<longleftrightarrow> c \<ge> 0xb0 \<and> c \<le> 0xb9"

datatype edtasm_state = ES_HDR | ES_FNAME | ES_LINENUM | ES_LINETXT

text \<open>The value an \<^verbatim>\<open>enum edtasm_state\<close> prints as with \<^verbatim>\<open>%d\<close>.\<close>

fun edtasm_state_num :: "edtasm_state \<Rightarrow> int" where
  "edtasm_state_num ES_HDR = 0"
| "edtasm_state_num ES_FNAME = 1"
| "edtasm_state_num ES_LINENUM = 2"
| "edtasm_state_num ES_LINETXT = 3"

text \<open>
  The command line argument values \<^verbatim>\<open>Cvt_Newer_Format\<close>, \<^verbatim>\<open>Show_File_Hdr\<close> and
  \<^verbatim>\<open>Show_Linenums\<close>.  \<^verbatim>\<open>process_file\<close> receives the first two as its parameters
  \<^verbatim>\<open>cvt_newerfmt\<close> and \<^verbatim>\<open>show_hdr\<close> and reads the third as a global.
\<close>

record edtasm_opts =
  Cvt_Newer_Format :: int
  Show_File_Hdr :: int
  Show_Linenums :: int

text \<open>
  The option loop of \<^verbatim>\<open>process_args\<close>, over the characters \<^verbatim>\<open>getopt(argc, argv, "cfs")\<close>
  returns in turn; any other character is the \<^verbatim>\<open>default\<close> branch, which fails.
\<close>

definition edtasm_defaults :: edtasm_opts where
  "edtasm_defaults = \<lparr>Cvt_Newer_Format = 0, Show_File_Hdr = 0, Show_Linenums = 1\<rparr>"

fun edtasm_getopt_loop :: "edtasm_opts \<Rightarrow> char list \<Rightarrow> edtasm_opts option" where
  "edtasm_getopt_loop opts [] = Some opts"
| "edtasm_getopt_loop opts (opt # others) =
     (if opt = CHR ''c'' then edtasm_getopt_loop (opts\<lparr>Cvt_Newer_Format := 1\<rparr>) others
      else if opt = CHR ''f'' then edtasm_getopt_loop (opts\<lparr>Show_File_Hdr := 1\<rparr>) others
      else if opt = CHR ''s'' then edtasm_getopt_loop (opts\<lparr>Show_Linenums := 0\<rparr>) others
      else None)"

text \<open>The locals of \<^verbatim>\<open>process_file\<close> and the two streams it writes.\<close>

record edtasm_vars =
  state :: edtasm_state
  fnc :: "32 word"
  lncc :: "32 word"
  tlcc :: "32 word"
  outfile :: "byte list"
  errfile :: "byte list"

definition edtasm_init :: edtasm_vars where
  "edtasm_init = \<lparr>state = ES_HDR, fnc = 0, lncc = 0, tlcc = 0, outfile = [], errfile = []\<rparr>"

definition fputs_out :: "byte list \<Rightarrow> edtasm_vars \<Rightarrow> edtasm_vars" where
  "fputs_out s v = v\<lparr>outfile := outfile v @ s\<rparr>"

definition fputs_err :: "byte list \<Rightarrow> edtasm_vars \<Rightarrow> edtasm_vars" where
  "fputs_err s v = v\<lparr>errfile := errfile v @ s\<rparr>"

text \<open>\<^verbatim>\<open>case ES_FNAME\<close>: the test \<^verbatim>\<open>fnc++ == 5\<close> compares the old value.\<close>

definition case_FNAME :: "edtasm_opts \<Rightarrow> edtasm_vars \<Rightarrow> byte \<Rightarrow> edtasm_vars step" where
  "case_FNAME opts v ch =
     (let v1 = (if Show_File_Hdr opts \<noteq> 0
                then fputs_out ((if fnc v = 0 then bytes_of ''FILENAME: '' else []) @ [ch]) v
                else v);
          v2 = v1\<lparr>fnc := fnc v1 + 1\<rparr>
      in if fnc v = 5
         then Continue ((if Show_File_Hdr opts \<noteq> 0 then fputs_out [NL, NL] v2 else v2)
                          \<lparr>fnc := 0, state := ES_LINENUM\<rparr>)
         else Continue v2)"

text \<open>\<^verbatim>\<open>case ES_LINENUM\<close>: the test \<^verbatim>\<open>++lncc == 5\<close> compares the new value.\<close>

definition case_LINENUM :: "edtasm_opts \<Rightarrow> edtasm_vars \<Rightarrow> byte \<Rightarrow> edtasm_vars step" where
  "case_LINENUM opts v ch =
     (if LINENUMCHAR ch then
        (let v1 = (if Show_Linenums opts \<noteq> 0 then fputs_out [ch AND 0x7f] v else v);
             v2 = v1\<lparr>lncc := lncc v1 + 1\<rparr>
         in if lncc v2 = 5 then Continue (v2\<lparr>lncc := 0, state := ES_LINETXT\<rparr>)
            else Continue v2)
      else if ch = EOFCHAR then Return 0 v
      else Return 2 (fputs_err (bytes_of ''Bad line number.'' @ [NL]) v))"

text \<open>\<^verbatim>\<open>case ES_LINETXT\<close>: the test \<^verbatim>\<open>tlcc++ == 0\<close> compares the old value.\<close>

definition case_LINETXT :: "edtasm_opts \<Rightarrow> edtasm_vars \<Rightarrow> byte \<Rightarrow> edtasm_vars step" where
  "case_LINETXT opts v ch =
     (let v1 = v\<lparr>tlcc := tlcc v + 1\<rparr>
      in if tlcc v = 0 then
           (if ch = 0x20 \<or> ch = 0x09 then
              (if Show_Linenums opts \<noteq> 0
               then Continue (fputs_out
                      [if ch = 0x20 \<and> Cvt_Newer_Format opts = 1 then 0x09 else ch] v1)
               else Continue v1)
            else Return 2 (fputs_err
                   (bytes_of ''Unexpected character following line number ('' @
                    fmt_x 2 (unat ch) @ bytes_of '').'' @ [NL]) v1))
         else if ch = EOLCHAR then
           Continue ((fputs_out [NL] v1)\<lparr>tlcc := 0, state := ES_LINENUM\<rparr>)
         else Continue (fputs_out [ch] v1))"

text \<open>The \<^verbatim>\<open>switch (state)\<close>; \<^verbatim>\<open>ES_HDR\<close> has no case of its own and takes \<^verbatim>\<open>default\<close>.\<close>

definition edtasm_switch :: "edtasm_opts \<Rightarrow> edtasm_vars \<Rightarrow> byte \<Rightarrow> edtasm_vars step" where
  "edtasm_switch opts v ch =
     (case state v of
        ES_FNAME \<Rightarrow> case_FNAME opts v ch
      | ES_LINENUM \<Rightarrow> case_LINENUM opts v ch
      | ES_LINETXT \<Rightarrow> case_LINETXT opts v ch
      | ES_HDR \<Rightarrow> Return 3 (fputs_err
                   (bytes_of ''Bad state ('' @ fmt_d (edtasm_state_num (state v)) @
                    bytes_of '', 0x'' @ fmt_x 2 (unat ch) @ bytes_of '').'' @ [NL]) v))"

text \<open>
  The loop body: in \<^verbatim>\<open>ES_HDR\<close> the header marker is consumed (\<^verbatim>\<open>continue\<close>), a
  line-number byte switches the state and is dispatched again, anything else is fatal.
\<close>

definition edtasm_body :: "edtasm_opts \<Rightarrow> edtasm_vars \<Rightarrow> byte \<Rightarrow> edtasm_vars step" where
  "edtasm_body opts v ch =
     (if state v = ES_HDR then
        (if ch = HEADERCHAR then Continue (v\<lparr>state := ES_FNAME\<rparr>)
         else if LINENUMCHAR ch then edtasm_switch opts (v\<lparr>state := ES_LINENUM\<rparr>) ch
         else Return 2 (fputs_err (bytes_of ''Unexpected file format.'' @ [NL]) v))
      else edtasm_switch opts v ch)"

definition edtasm_loop :: "edtasm_opts \<Rightarrow> edtasm_vars \<Rightarrow> byte list \<Rightarrow> edtasm_vars loop_end" where
  "edtasm_loop opts = read_loop (edtasm_body opts)"

definition edtasm_process_file :: "edtasm_opts \<Rightarrow> byte list \<Rightarrow> edtasm_vars loop_end" where
  "edtasm_process_file opts input = edtasm_loop opts edtasm_init input"

text \<open>The value \<^verbatim>\<open>process_file\<close> returns: 0 after the loop, else the returned value.\<close>

fun return_value :: "'v loop_end \<Rightarrow> int option" where
  "return_value (Exhausted v) = Some 0"
| "return_value (Returned r v rest) = Some r"
| "return_value Crashed = None"

fun final_vars :: "'v loop_end \<Rightarrow> 'v option" where
  "final_vars (Exhausted v) = Some v"
| "final_vars (Returned r v rest) = Some v"
| "final_vars Crashed = None"

text \<open>What a run of the converter shows: its return value and the two streams written.\<close>

definition observed :: "edtasm_vars loop_end \<Rightarrow> int option \<times> (byte list \<times> byte list) option" where
  "observed e = (return_value e, map_option (\<lambda>v. (outfile v, errfile v)) (final_vars e))"

text \<open>
  The stream format the converter is specified against: an optional header of the marker
  and six file name bytes, then line records, then the end-of-file mark.  A line record is
  its five line-number bytes, its separator and its text.
\<close>

type_synonym line_record = "byte list \<times> byte \<times> byte list"

definition well_formed_line :: "line_record \<Rightarrow> bool" where
  "well_formed_line r =
     (case r of (num, sep, chars) \<Rightarrow>
        length num = 5 \<and> list_all LINENUMCHAR num \<and> (sep = 0x20 \<or> sep = 0x09) \<and>
        EOLCHAR \<notin> set chars)"

text \<open>The text of a line is short enough for the 32-bit counter \<^verbatim>\<open>tlcc\<close> not to come back to 0.\<close>

definition line_fits :: "line_record \<Rightarrow> bool" where
  "line_fits r = (case r of (num, sep, chars) \<Rightarrow> length chars < 4294967295)"

definition line_bytes :: "line_record \<Rightarrow> byte list" where
  "line_bytes r = (case r of (num, sep, chars) \<Rightarrow> num @ [sep] @ chars @ [EOLCHAR])"

definition edtasm_stream :: "byte list \<Rightarrow> line_record list \<Rightarrow> byte list" where
  "edtasm_stream fname recs = HEADERCHAR # fname @ concat (map line_bytes recs) @ [EOFCHAR]"

text \<open>The output lines the specification expects, with and without the line number.\<close>

definition numbered_line :: "line_record \<Rightarrow> byte list" where
  "numbered_line r =
     (case r of (num, sep, chars) \<Rightarrow> map (\<lambda>c. c AND 0x7f) num @ [sep] @ chars @ [NL])"

definition tabbed_line :: "line_record \<Rightarrow> byte list" where
  "tabbed_line r =
     (case r of (num, sep, chars) \<Rightarrow> map (\<lambda>c. c AND 0x7f) num @ [0x09] @ chars @ [NL])"

definition text_line :: "line_record \<Rightarrow> byte list" where
  "text_line r = (case r of (num, sep, chars) \<Rightarrow> chars @ [NL])"

text \<open>Two line records that differ at most in their separator.\<close>

definition same_text :: "line_record \<Rightarrow> line_record \<Rightarrow> bool" where
  "same_text r r' \<longleftrightarrow> fst r = fst r' \<and> snd (snd r) = snd (snd r')"

text \<open>What the state machine writes for one line record under given options.\<close>

definition emitted_line :: "edtasm_opts \<Rightarrow> line_record \<Rightarrow> byte list" where
  "emitted_line opts r =
     (case r of (num, sep, chars) \<Rightarrow>
        (if Show_Linenums opts \<noteq> 0
         then map (\<lambda>c. c AND 0x7f) num @
              [if sep = 0x20 \<and> Cvt_Newer_Format opts = 1 then 0x09 else sep]
         else []) @ chars @ [NL])"

section \<open>stripcmd: CMD file inspector\<close>

definition BLK_LEN :: "int \<Rightarrow> int" where
  "BLK_LEN n = (if n < 3 then n + 254 else n - 2)"

definition FNAME_SIZE :: nat where
  "FNAME_SIZE = 0xff"

definition COMMENT_SIZE :: nat where
  "COMMENT_SIZE = 0xff"

text \<open>\<^verbatim>\<open>enum cmd_header\<close>.\<close>

definition LOADBLK :: byte where
  "LOADBLK = 0x01"

definition XFERADDR :: byte where
  "XFERADDR = 0x02"

definition FNAMEREC :: byte where
  "FNAMEREC = 0x05"

definition COMMREC :: byte where
  "COMMREC = 0x1f"

datatype cmd_state =
    CMD_HDR | LOADBLK_LEN | LOADBLK_ADDRLO | LOADBLK_ADDRHI
  | XFER_LEN | XFER_ADDRLO | XFER_ADDRHI
  | FNAMEREC_LEN | FNAMEREC_NAME | COMMREC_LEN | COMMREC_STRING
  | SKIP_BYTES | EXTRA_BYTES

text \<open>
  The locals of \<^verbatim>\<open>process_file\<close> (\<open>cstate\<close> is its \<^verbatim>\<open>state\<close>) and the bytes written
  to \<^verbatim>\<open>OutputFile\<close>, standard output and standard error.  The arrays \<^verbatim>\<open>fname\<close> and
  \<^verbatim>\<open>comment\<close> have \<^verbatim>\<open>FNAME_SIZE+1\<close> and \<^verbatim>\<open>COMMENT_SIZE+1\<close> cells.  Their first contents
  are indeterminate in C; no run reads a cell before storing to it, and the model starts
  them at zero.
\<close>

record cmd_vars =
  cstate :: cmd_state
  load_addr :: "16 word"
  xfer_addr :: "16 word"
  fname :: "byte list"
  fname_len :: "8 word"
  fname_idx :: "32 word"
  comment :: "byte list"
  comment_len :: "8 word"
  comment_idx :: "32 word"
  chskip :: "32 word"
  extra_bytes :: "32 word"
  cmd_outfile :: "byte list"
  cmd_stdout :: "byte list"
  cmd_stderr :: "byte list"

definition cmd_init :: cmd_vars where
  "cmd_init =
     \<lparr>cstate = CMD_HDR, load_addr = 0, xfer_addr = 0,
      fname = replicate (FNAME_SIZE + 1) 0, fname_len = 0, fname_idx = 0,
      comment = replicate (COMMENT_SIZE + 1) 0, comment_len = 0, comment_idx = 0,
      chskip = 0, extra_bytes = 0, cmd_outfile = [], cmd_stdout = [], cmd_stderr = []\<rparr>"

text \<open>A store \<^verbatim>\<open>a[i] = b\<close>: defined only inside the array.\<close>

definition array_store :: "byte list \<Rightarrow> 32 word \<Rightarrow> byte \<Rightarrow> byte list option" where
  "array_store a i b = (if unat i < length a then Some (a[unat i := b]) else None)"

text \<open>What \<^verbatim>\<open>%s\<close> prints of a character array: the bytes before the first NUL.\<close>

definition c_string :: "byte list \<Rightarrow> byte list" where
  "c_string a = takeWhile (\<lambda>b. b \<noteq> 0) a"

definition printf_out :: "byte list \<Rightarrow> cmd_vars \<Rightarrow> cmd_vars" where
  "printf_out s v = v\<lparr>cmd_stdout := cmd_stdout v @ s\<rparr>"

definition printf_err :: "byte list \<Rightarrow> cmd_vars \<Rightarrow> cmd_vars" where
  "printf_err s v = v\<lparr>cmd_stderr := cmd_stderr v @ s\<rparr>"

text \<open>The \<^verbatim>\<open>switch ((enum cmd_header)ch)\<close> of \<^verbatim>\<open>case CMD_HDR\<close>.\<close>

definition case_CMD_HDR :: "cmd_vars \<Rightarrow> byte \<Rightarrow> cmd_vars step" where
  "case_CMD_HDR v ch =
     (if ch = LOADBLK then Continue (v\<lparr>cstate := LOADBLK_LEN\<rparr>)
      else if ch = XFERADDR then Continue (v\<lparr>cstate := XFER_LEN\<rparr>)
      else if ch = FNAMEREC then Continue (v\<lparr>cstate := FNAMEREC_LEN\<rparr>)
      else if ch = COMMREC then Continue (v\<lparr>cstate := COMMREC_LEN\<rparr>)
      else Return 2 (printf_err
             (bytes_of ''Unexpected header byte (0x'' @ fmt_x 2 (unat ch) @
              bytes_of '').'' @ [NL]) v))"

text \<open>
  \<^verbatim>\<open>case FNAMEREC_NAME\<close>: \<^verbatim>\<open>fname[fname_idx++] = ch\<close>, then the comparison of the new
  index with the length byte, and the store of the terminating NUL.
\<close>

definition case_FNAMEREC_NAME :: "int \<Rightarrow> cmd_vars \<Rightarrow> byte \<Rightarrow> cmd_vars step" where
  "case_FNAMEREC_NAME quiet v ch =
     (case array_store (fname v) (fname_idx v) ch of
        None \<Rightarrow> Undefined
      | Some a \<Rightarrow>
          (let v1 = v\<lparr>fname := a, fname_idx := fname_idx v + 1\<rparr>
           in if fname_idx v1 = ucast (fname_len v1) then
                (case array_store (fname v1) (fname_idx v1) 0 of
                   None \<Rightarrow> Undefined
                 | Some a' \<Rightarrow>
                     (let v2 = v1\<lparr>fname := a'\<rparr>;
                          v3 = (if quiet = 0
                                then printf_out (bytes_of ''Filename = '' @ [DQUOTE] @
                                       c_string (fname v2) @ [DQUOTE, NL]) v2
                                else v2)
                      in Continue (v3\<lparr>cstate := CMD_HDR\<rparr>)))
              else Continue v1))"

definition case_COMMREC_STRING :: "int \<Rightarrow> cmd_vars \<Rightarrow> byte \<Rightarrow> cmd_vars step" where
  "case_COMMREC_STRING quiet v ch =
     (case array_store (comment v) (comment_idx v) ch of
        None \<Rightarrow> Undefined
      | Some a \<Rightarrow>
          (let v1 = v\<lparr>comment := a, comment_idx := comment_idx v + 1\<rparr>
           in if comment_idx v1 = ucast (comment_len v1) then
                (case array_store (comment v1) (comment_idx v1) 0 of
                   None \<Rightarrow> Undefined
                 | Some a' \<Rightarrow>
                     (let v2 = v1\<lparr>comment := a'\<rparr>;
                          v3 = (if quiet = 0
                                then printf_out (bytes_of ''Comment = '' @ [DQUOTE] @
                                       c_string (comment v2) @ [DQUOTE, NL]) v2
                                else v2)
                      in Continue (v3\<lparr>cstate := CMD_HDR\<rparr>)))
              else Continue v1))"

text \<open>
  The \<^verbatim>\<open>switch(state)\<close>.  \<^verbatim>\<open>ch\<close> is an \<^verbatim>\<open>int\<close> between 0 and 255, \<^verbatim>\<open>uint ch\<close> here;
  \<^verbatim>\<open>(uint16_t)\<close> truncates to 16 bits before the value is widened to \<^verbatim>\<open>unsigned int\<close>.
  Every enumerator has a case, so the \<^verbatim>\<open>default\<close> branch has no state to run in.
\<close>

definition cmd_switch :: "int \<Rightarrow> cmd_vars \<Rightarrow> byte \<Rightarrow> cmd_vars step" where
  "cmd_switch quiet v ch =
     (case cstate v of
        CMD_HDR \<Rightarrow> case_CMD_HDR v ch
      | LOADBLK_LEN \<Rightarrow>
          Continue (v\<lparr>chskip := ucast (word_of_int (BLK_LEN (uint ch)) :: 16 word),
                      cstate := LOADBLK_ADDRLO\<rparr>)
      | LOADBLK_ADDRLO \<Rightarrow>
          Continue (v\<lparr>load_addr := word_of_int (uint ch), cstate := LOADBLK_ADDRHI\<rparr>)
      | LOADBLK_ADDRHI \<Rightarrow>
          (let v1 = v\<lparr>load_addr := word_of_int (uint (load_addr v) OR push_bit 8 (uint ch))\<rparr>;
               v2 = (if quiet = 0
                     then printf_out (bytes_of ''Load address == 0x'' @
                            fmt_x 4 (unat (load_addr v1)) @ bytes_of '' (len == 0x'' @
                            fmt_x 2 (unat (chskip v1)) @ bytes_of '')'' @ [NL]) v1
                     else v1)
           in Continue (v2\<lparr>cstate := SKIP_BYTES\<rparr>))
      | XFER_LEN \<Rightarrow>
          Continue (v\<lparr>chskip := ucast (word_of_int (uint ch - 2) :: 16 word),
                      cstate := XFER_ADDRLO\<rparr>)
      | XFER_ADDRLO \<Rightarrow>
          Continue (v\<lparr>xfer_addr := word_of_int (uint ch), cstate := XFER_ADDRHI\<rparr>)
      | XFER_ADDRHI \<Rightarrow>
          (let v1 = v\<lparr>xfer_addr := word_of_int (uint (xfer_addr v) OR push_bit 8 (uint ch))\<rparr>;
               v2 = (if quiet = 0
                     then printf_out (bytes_of ''Transfer address == 0x'' @
                            fmt_x 4 (unat (xfer_addr v1)) @ [NL]) v1
                     else v1)
           in if chskip v2 \<noteq> 0
              then Return 2 (printf_err
                     (bytes_of ''Unexpected transfer address length ('' @
                      fmt_d (sint (chskip v2)) @ bytes_of '').'' @ [NL]) v2)
              else Continue (v2\<lparr>extra_bytes := 0, cstate := EXTRA_BYTES\<rparr>))
      | FNAMEREC_LEN \<Rightarrow>
          (let v1 = v\<lparr>fname_len := ch\<rparr>
           in if unat (fname_len v1) > FNAME_SIZE
              then Return 2 (printf_err
                     (bytes_of ''Unexpected file name size (0x'' @
                      fmt_x 2 (unat (fname_len v1)) @ bytes_of '').'' @ [NL]) v1)
              else Continue (v1\<lparr>fname_idx := 0, cstate := FNAMEREC_NAME\<rparr>))
      | FNAMEREC_NAME \<Rightarrow> case_FNAMEREC_NAME quiet v ch
      | COMMREC_LEN \<Rightarrow>
          (let v1 = v\<lparr>comment_len := ch\<rparr>
           in if unat (comment_len v1) > COMMENT_SIZE
              then Return 2 (printf_err
                     (bytes_of ''Unexpected comment size (0x'' @
                      fmt_x 2 (unat (comment_len v1)) @ bytes_of '').'' @ [NL]) v1)
              else Continue (v1\<lparr>comment_idx := 0, cstate := COMMREC_STRING\<rparr>))
      | COMMREC_STRING \<Rightarrow> case_COMMREC_STRING quiet v ch
      | SKIP_BYTES \<Rightarrow>
          (let v1 = v\<lparr>chskip := chskip v - 1\<rparr>
           in if chskip v1 = 0 then Continue (v1\<lparr>cstate := CMD_HDR\<rparr>) else Continue v1)
      | EXTRA_BYTES \<Rightarrow> Continue (v\<lparr>extra_bytes := extra_bytes v + 1\<rparr>))"

text \<open>
  The loop body.  \<open>quiet\<close> is the value of the global \<^verbatim>\<open>Quiet\<close> and \<open>have_out\<close> says
  that the global \<^verbatim>\<open>OutputFile\<close> is not null.
  \<^verbatim>\<open>fwrite(&ch, 1, 1, OutputFile)\<close> writes the byte of the \<^verbatim>\<open>int\<close> at its lowest address,
  which on a little-endian target is the byte read.
\<close>

definition cmd_body :: "int \<Rightarrow> bool \<Rightarrow> cmd_vars \<Rightarrow> byte \<Rightarrow> cmd_vars step" where
  "cmd_body quiet have_out v ch =
     cmd_switch quiet
       (if cstate v \<noteq> EXTRA_BYTES \<and> have_out then v\<lparr>cmd_outfile := cmd_outfile v @ [ch]\<rparr>
        else v) ch"

definition cmd_loop :: "int \<Rightarrow> bool \<Rightarrow> cmd_vars \<Rightarrow> byte list \<Rightarrow> cmd_vars loop_end" where
  "cmd_loop quiet have_out = read_loop (cmd_body quiet have_out)"

text \<open>The report after the loop.\<close>

definition found_extraneous :: "nat \<Rightarrow> byte list" where
  "found_extraneous n =
     bytes_of ''Found '' @ fmt_u n @ bytes_of '' extraneous bytes at end of file.'' @ [NL]"

definition looks_good :: "byte list" where
  "looks_good = bytes_of ''CMD file looks good!'' @ [NL]"

definition cmd_summary :: "int \<Rightarrow> cmd_vars \<Rightarrow> cmd_vars" where
  "cmd_summary quiet v =
     (if quiet < 2
      then printf_out looks_good
             (if extra_bytes v \<noteq> 0 then printf_out (found_extraneous (unat (extra_bytes v))) v
              else v)
      else v)"

definition cmd_process_file :: "int \<Rightarrow> bool \<Rightarrow> byte list \<Rightarrow> cmd_vars loop_end" where
  "cmd_process_file quiet have_out input =
     (case cmd_loop quiet have_out cmd_init input of
        Exhausted v \<Rightarrow> Returned 0 (cmd_summary quiet v) []
      | Returned r v rest \<Rightarrow> Returned r v rest
      | Crashed \<Rightarrow> Crashed)"

text \<open>
  \<^verbatim>\<open>process_args\<close>.  The characters \<^verbatim>\<open>getopt(argc, argv, "q")\<close> returns in turn and the
  operands it leaves (\<^verbatim>\<open>argv[optind]\<close> onwards) are taken as given; \<^verbatim>\<open>fopen\<close> succeeds
  or fails as the environment says.
\<close>

datatype input_source = Stdin | Input_File string

record cmd_args =
  Quiet :: "32 word"
  InputFile :: input_source
  OutputFile :: "string option"

record file_env =
  fopen_r :: "string \<Rightarrow> bool"
  fopen_w :: "string \<Rightarrow> bool"

datatype args_error = Bad_Option | Too_Many_Operands | Open_Failed string

datatype args_end = Args_OK cmd_args | Args_Fail args_error | Args_Undefined

fun cmd_getopt_loop :: "32 word \<Rightarrow> char list \<Rightarrow> 32 word option" where
  "cmd_getopt_loop q [] = Some q"
| "cmd_getopt_loop q (opt # others) =
     (if opt = CHR ''q'' then cmd_getopt_loop (q + 1) others else None)"

text \<open>
  \<^verbatim>\<open>s[i]\<close> on a C string: its characters, then the terminating NUL, and nothing defined
  beyond that.
\<close>

definition c_char_at :: "string \<Rightarrow> nat \<Rightarrow> char option" where
  "c_char_at s i =
     (if i < length s then Some (s ! i) else if i = length s then Some (CHR 0x00) else None)"

text \<open>
  The condition
  \<^verbatim>\<open>((argc - optind) > 0) && (argv[optind][0] != '-') && (argv[optind][1] != '\0')\<close>
  under which the first operand is opened; \<open>None\<close> when evaluating it reads past the
  end of the operand.
\<close>

definition opens_input :: "string list \<Rightarrow> bool option" where
  "opens_input operands =
     (case operands of
        [] \<Rightarrow> Some False
      | a # _ \<Rightarrow>
          (case c_char_at a 0 of
             None \<Rightarrow> None
           | Some c0 \<Rightarrow>
               if c0 \<noteq> CHR ''-'' then
                 (case c_char_at a 1 of
                    None \<Rightarrow> None
                  | Some c1 \<Rightarrow> Some (c1 \<noteq> CHR 0x00))
               else Some False))"

definition open_output :: "file_env \<Rightarrow> 32 word \<Rightarrow> input_source \<Rightarrow> string list \<Rightarrow> args_end" where
  "open_output env q src operands =
     (if length operands > 1 then
        (let ofile = operands ! 1
         in if fopen_w env ofile
            then Args_OK \<lparr>Quiet = q, InputFile = src, OutputFile = Some ofile\<rparr>
            else Args_Fail (Open_Failed ofile))
      else Args_OK \<lparr>Quiet = q, InputFile = src, OutputFile = None\<rparr>)"

definition cmd_process_args :: "file_env \<Rightarrow> char list \<Rightarrow> string list \<Rightarrow> args_end" where
  "cmd_process_args env opts operands =
     (case cmd_getopt_loop 0 opts of
        None \<Rightarrow> Args_Fail Bad_Option
      | Some q \<Rightarrow>
          if length operands > 2 then Args_Fail Too_Many_Operands
          else
            (case opens_input operands of
               None \<Rightarrow> Args_Undefined
             | Some True \<Rightarrow>
                 (let ifile = operands ! 0
                  in if fopen_r env ifile then open_output env q (Input_File ifile) operands
                     else Args_Fail (Open_Failed ifile))
             | Some False \<Rightarrow> open_output env q Stdin operands))"

text \<open>
  \<^verbatim>\<open>main\<close>.  The environment also gives the bytes each input source delivers and whether
  \<^verbatim>\<open>ferror\<close> or \<^verbatim>\<open>fclose\<close> report a failure on the output file.  A run ends in
  \<^verbatim>\<open>usage\<close> (status 1), in \<^verbatim>\<open>fatal(3, ...)\<close>, or by returning \<^verbatim>\<open>ret\<close>; the bytes of
  \<^verbatim>\<open>cmd_outfile\<close> are then what the output file holds.
\<close>

record run_env = file_env +
  stream_of :: "input_source \<Rightarrow> byte list"
  ferror_OutputFile :: bool
  fclose_fails :: bool

datatype fatal_error = Write_Error | Close_Error

datatype main_end =
    Usage_Exit args_error
  | Fatal_Exit fatal_error cmd_vars
  | Main_Return int cmd_vars "byte list"
  | Main_Undefined

definition check_output :: "run_env \<Rightarrow> cmd_args \<Rightarrow> int \<Rightarrow> cmd_vars \<Rightarrow> byte list \<Rightarrow> main_end" where
  "check_output env a ret v rest =
     (if ret = 0 \<and> OutputFile a \<noteq> None then
        (if ferror_OutputFile env then Fatal_Exit Write_Error v
         else if fclose_fails env then Fatal_Exit Close_Error v
         else Main_Return ret v rest)
      else Main_Return ret v rest)"

definition cmd_main :: "run_env \<Rightarrow> char list \<Rightarrow> string list \<Rightarrow> main_end" where
  "cmd_main env opts operands =
     (case cmd_process_args (file_env.truncate env) opts operands of
        Args_Fail e \<Rightarrow> Usage_Exit e
      | Args_Undefined \<Rightarrow> Main_Undefined
      | Args_OK a \<Rightarrow>
          (case cmd_process_file (sint (Quiet a)) (OutputFile a \<noteq> None)
                  (stream_of env (InputFile a)) of
             Returned ret v rest \<Rightarrow> check_output env a ret v rest
           | Exhausted v \<Rightarrow> check_output env a 0 v []
           | Crashed \<Rightarrow> Main_Undefined))"

fun exit_status :: "main_end \<Rightarrow> int option" where
  "exit_status (Usage_Exit e) = Some 1"
| "exit_status (Fatal_Exit f v) = Some 3"
| "exit_status (Main_Return ret v rest) = Some ret"
| "exit_status Main_Undefined = None"

text \<open>
  The CMD format the inspector is specified against: records, each a type byte and its
  fields, closed by a transfer address record of stated length 2, with any bytes after it
  being extraneous.  A load block carries its length byte, its address and its payload; a
  file name or comment record carries its characters, their number being the length byte.
\<close>

datatype cmd_record =
    Load_Block byte byte byte "byte list"
  | File_Name "byte list"
  | Comment_Text "byte list"

fun well_formed_record :: "cmd_record \<Rightarrow> bool" where
  "well_formed_record (Load_Block n lo hi payload) \<longleftrightarrow> int (length payload) = BLK_LEN (uint n)"
| "well_formed_record (File_Name name) \<longleftrightarrow> length name \<le> 255"
| "well_formed_record (Comment_Text str) \<longleftrightarrow> length str \<le> 255"

fun nonempty_record :: "cmd_record \<Rightarrow> bool" where
  "nonempty_record (Load_Block n lo hi payload) \<longleftrightarrow> True"
| "nonempty_record (File_Name name) \<longleftrightarrow> name \<noteq> []"
| "nonempty_record (Comment_Text str) \<longleftrightarrow> str \<noteq> []"

fun record_bytes :: "cmd_record \<Rightarrow> byte list" where
  "record_bytes (Load_Block n lo hi payload) = [LOADBLK, n, lo, hi] @ payload"
| "record_bytes (File_Name name) = [FNAMEREC, of_nat (length name)] @ name"
| "record_bytes (Comment_Text str) = [COMMREC, of_nat (length str)] @ str"

definition xfer_bytes :: "byte \<Rightarrow> byte \<Rightarrow> byte list" where
  "xfer_bytes lo hi = [XFERADDR, 0x02, lo, hi]"

definition cmd_stream :: "cmd_record list \<Rightarrow> byte \<Rightarrow> byte \<Rightarrow> byte list \<Rightarrow> byte list" where
  "cmd_stream recs lo hi extra = concat (map record_bytes recs) @ xfer_bytes lo hi @ extra"

section \<open>Facts about the read loop\<close>

lemma feed_append:
  "feed body v (xs @ ys) = (case feed body v xs of None \<Rightarrow> None | Some v' \<Rightarrow> feed body v' ys)"
  by (induction xs arbitrary: v) (auto split: step.splits)

lemma feed_read_loop:
  "feed body v xs = Some v' \<Longrightarrow> read_loop body v (xs @ rest) = read_loop body v' rest"
  by (induction xs arbitrary: v) (auto split: step.splits)

lemma feed_snoc:
  "feed body v xs = Some v1 \<Longrightarrow> feed body v (xs @ [x]) = feed body v1 [x]"
  by (simp add: feed_append)

lemma feed_one:
  "feed body v [x] = (case body v x of Continue v' \<Rightarrow> Some v' | Return r v' \<Rightarrow> None | Undefined \<Rightarrow> None)"
  by (simp split: step.splits)

lemma read_loop_Exhausted:
  "read_loop body v xs = Exhausted v' \<longleftrightarrow> feed body v xs = Some v'"
  by (induction xs arbitrary: v) (auto split: step.splits)

lemma read_loop_Returned:
  "read_loop body v xs = Returned r v' rest \<longleftrightarrow>
     (\<exists>pre ch vp. xs = pre @ ch # rest \<and> feed body v pre = Some vp \<and> body vp ch = Return r v')"
proof (induction xs arbitrary: v)
  case Nil
  then show ?case by simp
next
  case (Cons x xs)
  show ?case
  proof (cases "body v x")
    case (Continue v1)
    have "(\<exists>pre ch vp. x # xs = pre @ ch # rest \<and> feed body v pre = Some vp \<and>
              body vp ch = Return r v') \<longleftrightarrow>
          (\<exists>pre ch vp. xs = pre @ ch # rest \<and> feed body v1 pre = Some vp \<and>
              body vp ch = Return r v')"
      (is "?L \<longleftrightarrow> ?R")
    proof
      assume ?L
      then obtain pre ch vp where h: "x # xs = pre @ ch # rest" "feed body v pre = Some vp"
        "body vp ch = Return r v'" by blast
      show ?R
      proof (cases pre)
        case Nil
        with h Continue show ?thesis by simp
      next
        case (Cons y ys)
        with h Continue show ?thesis by auto
      qed
    next
      assume ?R
      then obtain pre ch vp where h: "xs = pre @ ch # rest" "feed body v1 pre = Some vp"
        "body vp ch = Return r v'" by blast
      with Continue have "x # xs = (x # pre) @ ch # rest \<and> feed body v (x # pre) = Some vp \<and>
          body vp ch = Return r v'" by simp
      then show ?L by blast
    qed
    with Continue Cons.IH [of v1] show ?thesis by simp
  next
    case (Return r1 v1)
    have "(\<exists>pre ch vp. x # xs = pre @ ch # rest \<and> feed body v pre = Some vp \<and>
              body vp ch = Return r v') \<longleftrightarrow> (r1 = r \<and> v1 = v' \<and> xs = rest)"
      (is "?L \<longleftrightarrow> ?R")
    proof
      assume ?L
      then obtain pre ch vp where h: "x # xs = pre @ ch # rest" "feed body v pre = Some vp"
        "body vp ch = Return r v'" by blast
      show ?R
      proof (cases pre)
        case Nil
        with h Return show ?thesis by simp
      next
        case (Cons y ys)
        with h Return show ?thesis by auto
      qed
    next
      assume ?R
      with Return have "x # xs = [] @ x # rest \<and> feed body v [] = Some v \<and>
          body v x = Return r v'" by simp
      then show ?L by blast
    qed
    with Return show ?thesis by auto
  next
    case Undefined
    have "\<not> (\<exists>pre ch vp. x # xs = pre @ ch # rest \<and> feed body v pre = Some vp \<and>
              body vp ch = Return r v')"
    proof
      assume "\<exists>pre ch vp. x # xs = pre @ ch # rest \<and> feed body v pre = Some vp \<and>
              body vp ch = Return r v'"
      then obtain pre ch vp where h: "x # xs = pre @ ch # rest" "feed body v pre = Some vp"
        "body vp ch = Return r v'" by blast
      show False
      proof (cases pre)
        case Nil
        with h Undefined show ?thesis by simp
      next
        case (Cons y ys)
        with h Undefined show ?thesis by auto
      qed
    qed
    with Undefined show ?thesis by simp
  qed
qed

lemma read_loop_Crashed:
  "read_loop body v xs = Crashed \<Longrightarrow> \<exists>vp ch. body vp ch = Undefined"
  by (induction xs arbitrary: v) (auto split: step.splits)

section \<open>edtasmcvt: runs over the parts of a stream\<close>

lemma edtasm_loop_Nil: "edtasm_loop opts v [] = Exhausted v"
  by (simp add: edtasm_loop_def)

lemma edtasm_loop_Cons:
  "edtasm_loop opts v (ch # rest) =
     (case edtasm_body opts v ch of
        Continue v' \<Rightarrow> edtasm_loop opts v' rest
      | Return r v' \<Rightarrow> Returned r v' rest
      | Undefined \<Rightarrow> Crashed)"
  unfolding edtasm_loop_def by simp

lemma run_fname:
  assumes "Show_File_Hdr opts = 0" and "length fn = 6"
  shows "edtasm_loop opts
      \<lparr>state = ES_FNAME, fnc = 0, lncc = l, tlcc = k, outfile = out, errfile = err\<rparr>
      (fn @ rest) =
    edtasm_loop opts
      \<lparr>state = ES_LINENUM, fnc = 0, lncc = l, tlcc = k, outfile = out, errfile = err\<rparr> rest"
proof -
  from assms(2) obtain a b c d e f where fn: "fn = [a, b, c, d, e, f]"
    by (auto simp: length_Suc_conv eval_nat_numeral)
  show ?thesis
    unfolding fn using assms(1)
    by (simp add: edtasm_loop_Cons edtasm_body_def edtasm_switch_def case_FNAME_def)
qed

lemma step_linenum:
  "LINENUMCHAR c \<Longrightarrow>
   edtasm_loop opts
     \<lparr>state = ES_LINENUM, fnc = f, lncc = n, tlcc = k, outfile = out, errfile = err\<rparr>
     (c # rest) =
   edtasm_loop opts
     \<lparr>state = (if n + 1 = 5 then ES_LINETXT else ES_LINENUM), fnc = f,
      lncc = (if n + 1 = 5 then 0 else n + 1), tlcc = k,
      outfile = out @ (if Show_Linenums opts \<noteq> 0 then [c AND 0x7f] else []),
      errfile = err\<rparr> rest"
  by (simp add: edtasm_loop_Cons edtasm_body_def edtasm_switch_def case_LINENUM_def
      fputs_out_def Let_def)

lemma run_linenum:
  assumes "length d = 5" and "list_all LINENUMCHAR d"
  shows "edtasm_loop opts
      \<lparr>state = ES_LINENUM, fnc = f, lncc = 0, tlcc = k, outfile = out, errfile = err\<rparr>
      (d @ rest) =
    edtasm_loop opts
      \<lparr>state = ES_LINETXT, fnc = f, lncc = 0, tlcc = k,
       outfile = out @ (if Show_Linenums opts \<noteq> 0 then map (\<lambda>c. c AND 0x7f) d else []),
       errfile = err\<rparr> rest"
proof -
  from assms(1) obtain a b c e g where d: "d = [a, b, c, e, g]"
    by (auto simp: length_Suc_conv eval_nat_numeral)
  show ?thesis
    using assms(2) unfolding d
    by (simp add: step_linenum)
qed

lemma run_sep:
  "s = 0x20 \<or> s = 0x09 \<Longrightarrow>
   edtasm_loop opts
     \<lparr>state = ES_LINETXT, fnc = f, lncc = l, tlcc = 0, outfile = out, errfile = err\<rparr>
     (s # rest) =
   edtasm_loop opts
     \<lparr>state = ES_LINETXT, fnc = f, lncc = l, tlcc = 1,
      outfile = out @ (if Show_Linenums opts \<noteq> 0
                       then [if s = 0x20 \<and> Cvt_Newer_Format opts = 1 then 0x09 else s]
                       else []),
      errfile = err\<rparr> rest"
  by (auto simp add: edtasm_loop_Cons edtasm_body_def edtasm_switch_def case_LINETXT_def
      fputs_out_def)

lemma run_text:
  "EOLCHAR \<notin> set t \<Longrightarrow> t = [] \<or> (k \<noteq> 0 \<and> unat k + length t \<le> 2 ^ 32) \<Longrightarrow>
   edtasm_loop opts
     \<lparr>state = ES_LINETXT, fnc = f, lncc = l, tlcc = k, outfile = out, errfile = err\<rparr>
     (t @ rest) =
   edtasm_loop opts
     \<lparr>state = ES_LINETXT, fnc = f, lncc = l, tlcc = k + of_nat (length t),
      outfile = out @ t, errfile = err\<rparr> rest"
proof (induction t arbitrary: k out)
  case Nil
  then show ?case by simp
next
  case (Cons x xs)
  from Cons.prems have k: "k \<noteq> 0" and bound: "unat k + Suc (length xs) \<le> 2 ^ 32"
    and x: "x \<noteq> EOLCHAR" and xs: "EOLCHAR \<notin> set xs"
    by auto
  have next_ok: "xs = [] \<or> (k + 1 \<noteq> 0 \<and> unat (k + 1) + length xs \<le> 2 ^ 32)"
  proof (cases xs)
    case Nil
    then show ?thesis by simp
  next
    case (Cons y ys)
    with bound have "unat k + 1 < 2 ^ 32" by simp
    then have "unat (k + 1) = unat k + 1"
      by (simp add: unat_add_lem [THEN iffD1])
    with bound show ?thesis by (auto simp: unat_eq_zero [symmetric] simp del: unat_eq_zero)
  qed
  have step: "edtasm_body opts
      \<lparr>state = ES_LINETXT, fnc = f, lncc = l, tlcc = k, outfile = out, errfile = err\<rparr> x =
    Continue
      \<lparr>state = ES_LINETXT, fnc = f, lncc = l, tlcc = k + 1, outfile = out @ [x],
       errfile = err\<rparr>"
    using k x by (simp add: edtasm_body_def edtasm_switch_def case_LINETXT_def fputs_out_def)
  show ?case
    using Cons.IH [OF xs next_ok, of "out @ [x]"] step
    by (simp add: edtasm_loop_Cons add.assoc)
qed

lemma step_eol:
  "k \<noteq> 0 \<Longrightarrow>
   edtasm_loop opts
     \<lparr>state = ES_LINETXT, fnc = f, lncc = l, tlcc = k, outfile = out, errfile = err\<rparr>
     (EOLCHAR # rest) =
   edtasm_loop opts
     \<lparr>state = ES_LINENUM, fnc = f, lncc = l, tlcc = 0, outfile = out @ [NL], errfile = err\<rparr>
     rest"
  by (simp add: edtasm_loop_Cons edtasm_body_def edtasm_switch_def case_LINETXT_def
      fputs_out_def)

lemma text_counter: "n < 4294967295 \<Longrightarrow> (1 :: 32 word) + of_nat n \<noteq> 0"
proof -
  assume n: "n < 4294967295"
  then have "unat ((1 :: 32 word) + of_nat n) = 1 + n"
    by (simp add: unat_word_ariths unat_of_nat)
  then show ?thesis
    by (metis Suc_eq_plus1_left nat.distinct(1) unat_0)
qed

lemma run_line:
  assumes "well_formed_line r" and "line_fits r"
  shows "edtasm_loop opts
      \<lparr>state = ES_LINENUM, fnc = f, lncc = 0, tlcc = 0, outfile = out, errfile = err\<rparr>
      (line_bytes r @ rest) =
    edtasm_loop opts
      \<lparr>state = ES_LINENUM, fnc = f, lncc = 0, tlcc = 0,
       outfile = out @ emitted_line opts r, errfile = err\<rparr> rest"
proof -
  obtain num sep chars where r: "r = (num, sep, chars)" by (cases r)
  from assms r have num: "length num = 5" "list_all LINENUMCHAR num"
    and sep: "sep = 0x20 \<or> sep = 0x09" and chars: "EOLCHAR \<notin> set chars"
    and fits: "length chars < 4294967295"
    by (auto simp: well_formed_line_def line_fits_def)
  from fits have inrange:
    "chars = [] \<or> ((1 :: 32 word) \<noteq> 0 \<and> unat (1 :: 32 word) + length chars \<le> 2 ^ 32)"
    by simp
  show ?thesis
    unfolding r line_bytes_def emitted_line_def
    using text_counter [OF fits]
    by (simp add: run_linenum [OF num] run_sep [OF sep] run_text [OF chars inrange] step_eol)
qed

lemma run_lines:
  "list_all well_formed_line recs \<Longrightarrow> list_all line_fits recs \<Longrightarrow>
   edtasm_loop opts
     \<lparr>state = ES_LINENUM, fnc = f, lncc = 0, tlcc = 0, outfile = out, errfile = err\<rparr>
     (concat (map line_bytes recs) @ rest) =
   edtasm_loop opts
     \<lparr>state = ES_LINENUM, fnc = f, lncc = 0, tlcc = 0,
      outfile = out @ concat (map (emitted_line opts) recs), errfile = err\<rparr> rest"
  by (induction recs arbitrary: out) (simp_all add: run_line)

lemma run_stream:
  assumes "Show_File_Hdr opts = 0" and "length fn = 6"
    and "list_all well_formed_line recs" and "list_all line_fits recs"
  shows "edtasm_process_file opts (edtasm_stream fn recs) =
     Returned 0 \<lparr>state = ES_LINENUM, fnc = 0, lncc = 0, tlcc = 0,
       outfile = concat (map (emitted_line opts) recs), errfile = []\<rparr> []"
proof -
  have "edtasm_process_file opts (edtasm_stream fn recs) =
      edtasm_loop opts
        \<lparr>state = ES_FNAME, fnc = 0, lncc = 0, tlcc = 0, outfile = [], errfile = []\<rparr>
        (fn @ concat (map line_bytes recs) @ [EOFCHAR])"
    by (simp add: edtasm_process_file_def edtasm_stream_def edtasm_init_def edtasm_loop_Cons
        edtasm_body_def)
  also have "\<dots> = edtasm_loop opts \<lparr>state = ES_LINENUM, fnc = 0, lncc = 0, tlcc = 0,
        outfile = concat (map (emitted_line opts) recs), errfile = []\<rparr> [EOFCHAR]"
    using run_lines [OF assms(3,4), of opts 0 "[]" "[]" "[EOFCHAR]"]
    by (simp add: run_fname [OF assms(1,2)])
  also have "\<dots> = Returned 0 \<lparr>state = ES_LINENUM, fnc = 0, lncc = 0, tlcc = 0,
        outfile = concat (map (emitted_line opts) recs), errfile = []\<rparr> []"
    by (simp add: edtasm_loop_Cons edtasm_body_def edtasm_switch_def case_LINENUM_def
        LINENUMCHAR_def EOFCHAR_def)
  finally show ?thesis .
qed

lemma linenumchar_cases:
  assumes "LINENUMCHAR c"
  shows "c \<in> {0xb0, 0xb1, 0xb2, 0xb3, 0xb4, 0xb5, 0xb6, 0xb7, 0xb8, 0xb9}"
proof -
  from assms have "176 \<le> unat c" and "unat c \<le> 185"
    by (simp_all add: LINENUMCHAR_def word_le_nat_alt)
  then have "unat c \<in> {176, 177, 178, 179, 180, 181, 182, 183, 184, 185}"
    by simp arith
  then show ?thesis
    by (simp add: word_unat_eq_iff)
qed

lemma digit_of_linenumchar:
  "LINENUMCHAR c \<Longrightarrow> 0x30 \<le> c AND 0x7f \<and> c AND 0x7f \<le> 0x39"
  using linenumchar_cases [of c] by auto

lemma edtasm_return_0:
  "edtasm_body opts v ch = Return 0 v' \<longleftrightarrow> state v = ES_LINENUM \<and> ch = EOFCHAR \<and> v' = v"
  by (cases "state v")
     (auto simp: edtasm_body_def edtasm_switch_def case_FNAME_def case_LINENUM_def
        case_LINETXT_def Let_def LINENUMCHAR_def EOFCHAR_def HEADERCHAR_def)

lemma edtasm_never_undefined: "edtasm_body opts v ch \<noteq> Undefined"
  by (cases "state v")
     (auto simp: edtasm_body_def edtasm_switch_def case_FNAME_def case_LINENUM_def
        case_LINETXT_def Let_def)

lemma edtasm_continue_errfile:
  "edtasm_body opts v ch = Continue v' \<Longrightarrow> errfile v' = errfile v"
  by (cases "state v")
     (auto simp: edtasm_body_def edtasm_switch_def case_FNAME_def case_LINENUM_def
        case_LINETXT_def Let_def fputs_out_def split: if_splits)

lemma edtasm_feed_errfile:
  "feed (edtasm_body opts) v xs = Some v' \<Longrightarrow> errfile v' = errfile v"
proof (induction xs arbitrary: v)
  case Nil
  then show ?case by simp
next
  case (Cons x xs)
  then show ?case
    by (auto split: step.splits dest: edtasm_continue_errfile)
qed

lemma run_wrapped_line:
  assumes "Show_File_Hdr opts = 0" and "x \<noteq> EOLCHAR"
  shows "edtasm_process_file opts
      (edtasm_stream (replicate 6 0x20)
         [(replicate 5 0xb0, 0x20, replicate 4294967295 x @ more_chars)]) =
    edtasm_loop opts \<lparr>state = ES_LINETXT, fnc = 0, lncc = 0, tlcc = 0,
       outfile = (if Show_Linenums opts \<noteq> 0
                  then replicate 5 0x30 @ [if Cvt_Newer_Format opts = 1 then 0x09 else 0x20]
                  else []) @ replicate 4294967295 x,
       errfile = []\<rparr> (more_chars @ [EOLCHAR, EOFCHAR])"
proof -
  have six: "length (replicate 6 (0x20 :: byte)) = 6" by simp
  have five: "length (replicate 5 (0xb0 :: byte)) = 5"
    "list_all LINENUMCHAR (replicate 5 (0xb0 :: byte))"
    by (simp_all add: LINENUMCHAR_def list_all_iff)
  have chars: "EOLCHAR \<notin> set (replicate 4294967295 x)"
    using assms(2) by simp
  have inrange: "replicate 4294967295 x = [] \<or>
      ((1 :: 32 word) \<noteq> 0 \<and> unat (1 :: 32 word) + length (replicate 4294967295 x) \<le> 2 ^ 32)"
    by simp
  have wrap: "(4294967296 :: 32 word) = 0"
    by simp
  show ?thesis
    using assms(1)
    by (simp add: wrap edtasm_process_file_def edtasm_stream_def edtasm_init_def
        edtasm_loop_Cons [of _ _ HEADERCHAR] edtasm_body_def line_bytes_def
        run_fname [OF _ six] run_linenum [OF five] run_sep run_text [OF chars inrange])
qed

lemma wrapped_line_well_formed:
  "x \<noteq> EOLCHAR \<Longrightarrow> EOLCHAR \<notin> set more_chars \<Longrightarrow>
   list_all well_formed_line [(replicate 5 0xb0, 0x20, replicate 4294967295 x @ more_chars)]"
  by (simp add: well_formed_line_def LINENUMCHAR_def list_all_iff)

lemma numbered_line_digits:
  assumes "well_formed_line r"
  shows "list_all (\<lambda>c. 0x30 \<le> c \<and> c \<le> 0x39) (take 5 (numbered_line r))"
proof -
  obtain num sep chars where r: "r = (num, sep, chars)" by (cases r)
  with assms have num: "length num = 5" "list_all LINENUMCHAR num"
    by (simp_all add: well_formed_line_def)
  from num(1) have "take 5 (numbered_line r) = map (\<lambda>c. c AND 0x7f) num"
    by (simp add: r numbered_line_def)
  with num(2) show ?thesis
    by (simp add: list_all_iff digit_of_linenumchar)
qed

lemma wrapped_tail:
  "edtasm_loop opts \<lparr>state = ES_LINETXT, fnc = 0, lncc = 0, tlcc = 0,
       outfile = out, errfile = []\<rparr> [0x20, EOLCHAR, EOFCHAR] =
   Returned 0 \<lparr>state = ES_LINENUM, fnc = 0, lncc = 0, tlcc = 0,
       outfile = out @ (if Show_Linenums opts \<noteq> 0
                        then [if Cvt_Newer_Format opts = 1 then 0x09 else 0x20] else []) @ [NL],
       errfile = []\<rparr> []"
  by (simp add: run_sep step_eol)
     (simp add: edtasm_loop_Cons edtasm_body_def edtasm_switch_def case_LINENUM_def
        LINENUMCHAR_def EOFCHAR_def)

lemma drop_number: "well_formed_line r \<Longrightarrow> drop 6 (numbered_line r) = text_line r"
  by (cases r) (simp add: well_formed_line_def numbered_line_def text_line_def)

lemma emitted_stripped: "Show_Linenums opts = 0 \<Longrightarrow> emitted_line opts r = text_line r"
  by (cases r) (simp add: emitted_line_def text_line_def)

lemma emitted_default: "emitted_line edtasm_defaults r = numbered_line r"
  by (cases r) (simp add: emitted_line_def numbered_line_def edtasm_defaults_def)

lemma getopt_strip:
  "edtasm_getopt_loop edtasm_defaults [CHR ''s''] = Some (edtasm_defaults\<lparr>Show_Linenums := 0\<rparr>)"
  by simp

lemma getopt_convert:
  "edtasm_getopt_loop edtasm_defaults [CHR ''c''] = Some (edtasm_defaults\<lparr>Cvt_Newer_Format := 1\<rparr>)"
  by simp

lemma text_line_same: "same_text r r' \<Longrightarrow> text_line r = text_line r'"
  by (cases r, cases r') (simp add: same_text_def text_line_def)

lemma text_lines_same:
  "list_all2 same_text recs recs' \<Longrightarrow> map text_line recs = map text_line recs'"
  by (induction rule: list_all2_induct) (simp_all add: text_line_same)

lemma emitted_tabbed:
  "Show_Linenums opts \<noteq> 0 \<Longrightarrow> Cvt_Newer_Format opts = 1 \<Longrightarrow> fst (snd r) = 0x20 \<Longrightarrow>
   emitted_line opts r = tabbed_line r"
  by (cases r) (simp add: emitted_line_def tabbed_line_def)

text \<open>Two stripped runs over streams that differ in their separators go in step.\<close>

lemma feed_None_cases:
  "feed body s p = None \<Longrightarrow>
   (\<exists>r v. \<forall>t. \<exists>rest. read_loop body s (p @ t) = Returned r v rest) \<or>
   (\<forall>t. read_loop body s (p @ t) = Crashed)"
proof (induction p arbitrary: s)
  case Nil
  then show ?case by simp
next
  case (Cons x xs)
  show ?case
  proof (cases "body s x")
    case (Continue s1)
    with Cons.prems have "feed body s1 xs = None" by simp
    from Cons.IH [OF this] Continue show ?thesis by simp
  next
    case (Return r v)
    then show ?thesis by auto
  next
    case Undefined
    then show ?thesis by simp
  qed
qed

lemma observed_same_prefix:
  assumes "feed (edtasm_body opts) s p = None"
  shows "observed (edtasm_loop opts s (p @ t)) = observed (edtasm_loop opts s (p @ t'))"
proof -
  from feed_None_cases [OF assms]
  consider r v where "\<forall>t. \<exists>rest. read_loop (edtasm_body opts) s (p @ t) = Returned r v rest"
    | "\<forall>t. read_loop (edtasm_body opts) s (p @ t) = Crashed"
    by blast
  then show ?thesis
  proof cases
    case 1
    then obtain rest rest' where "read_loop (edtasm_body opts) s (p @ t) = Returned r v rest"
      "read_loop (edtasm_body opts) s (p @ t') = Returned r v rest'"
      by blast
    then show ?thesis by (simp add: observed_def edtasm_loop_def)
  next
    case 2
    then show ?thesis by (simp add: observed_def edtasm_loop_def)
  qed
qed

lemma strip_body_cvt:
  "Show_Linenums opts = 0 \<Longrightarrow> Show_Linenums opts' = 0 \<Longrightarrow>
   Show_File_Hdr opts = Show_File_Hdr opts' \<Longrightarrow>
   edtasm_body opts = edtasm_body opts'"
  by (intro ext)
     (simp add: edtasm_body_def edtasm_switch_def case_FNAME_def case_LINENUM_def
        case_LINETXT_def Let_def split: edtasm_state.splits)

lemma text_keeps_state:
  "state v = ES_LINETXT \<Longrightarrow> EOLCHAR \<notin> set chars \<Longrightarrow>
   feed (edtasm_body opts) v chars = Some v2 \<Longrightarrow>
   state v2 = ES_LINETXT \<and> lncc v2 = lncc v"
proof (induction chars arbitrary: v)
  case Nil
  then show ?case by simp
next
  case (Cons x xs)
  from Cons.prems(3) obtain v1 where step: "edtasm_body opts v x = Continue v1"
    and more: "feed (edtasm_body opts) v1 xs = Some v2"
    by (auto split: step.splits)
  from step Cons.prems(1,2) have "state v1 = ES_LINETXT \<and> lncc v1 = lncc v"
    by (auto simp: edtasm_body_def edtasm_switch_def case_LINETXT_def Let_def fputs_out_def
        split: if_splits)
  with Cons.IH [OF _ _ more] Cons.prems(2) show ?case by simp
qed

lemma eol_keeps_count:
  "state v = ES_LINETXT \<Longrightarrow> edtasm_body opts v EOLCHAR = Continue v2 \<Longrightarrow>
   state v2 = ES_LINENUM \<and> tlcc v2 = 0 \<and> lncc v2 = lncc v"
  by (auto simp: edtasm_body_def edtasm_switch_def case_LINETXT_def Let_def fputs_out_def
      EOLCHAR_def split: if_splits)

lemma stripped_line_lockstep:
  assumes "Show_Linenums opts = 0"
    and "well_formed_line r" and "well_formed_line r'" and "same_text r r'"
    and tails: "\<And>f out err.
      observed (edtasm_loop opts
        \<lparr>state = ES_LINENUM, fnc = f, lncc = 0, tlcc = 0, outfile = out, errfile = err\<rparr> t) =
      observed (edtasm_loop opts
        \<lparr>state = ES_LINENUM, fnc = f, lncc = 0, tlcc = 0, outfile = out, errfile = err\<rparr> t')"
  shows "observed (edtasm_loop opts
        \<lparr>state = ES_LINENUM, fnc = f, lncc = 0, tlcc = 0, outfile = out, errfile = err\<rparr>
        (line_bytes r @ t)) =
      observed (edtasm_loop opts
        \<lparr>state = ES_LINENUM, fnc = f, lncc = 0, tlcc = 0, outfile = out, errfile = err\<rparr>
        (line_bytes r' @ t'))"
proof -
  obtain num sep chars where r: "r = (num, sep, chars)" by (cases r)
  obtain num' sep' chars' where r': "r' = (num', sep', chars')" by (cases r')
  from assms(4) r r' have same: "num' = num" "chars' = chars"
    by (simp_all add: same_text_def)
  from assms(2,3) r r' same have num: "length num = 5" "list_all LINENUMCHAR num"
    and sep: "sep = 0x20 \<or> sep = 0x09" and sep': "sep' = 0x20 \<or> sep' = 0x09"
    and chars: "EOLCHAR \<notin> set chars"
    by (auto simp: well_formed_line_def)
  let ?s1 = "\<lparr>state = ES_LINETXT, fnc = f, lncc = 0, tlcc = 1, outfile = out, errfile = err\<rparr>"
  have one: "edtasm_loop opts
        \<lparr>state = ES_LINENUM, fnc = f, lncc = 0, tlcc = 0, outfile = out, errfile = err\<rparr>
        (line_bytes r @ t) = edtasm_loop opts ?s1 ((chars @ [EOLCHAR]) @ t)"
    using assms(1) by (simp add: r line_bytes_def run_linenum [OF num] run_sep [OF sep])
  have two: "edtasm_loop opts
        \<lparr>state = ES_LINENUM, fnc = f, lncc = 0, tlcc = 0, outfile = out, errfile = err\<rparr>
        (line_bytes r' @ t') = edtasm_loop opts ?s1 ((chars @ [EOLCHAR]) @ t')"
    using assms(1) by (simp add: r' same line_bytes_def run_linenum [OF num] run_sep [OF sep'])
  show ?thesis
  proof (cases "feed (edtasm_body opts) ?s1 (chars @ [EOLCHAR])")
    case None
    from observed_same_prefix [OF this] show ?thesis
      unfolding one two .
  next
    case (Some s2)
    then obtain sm where mid: "feed (edtasm_body opts) ?s1 chars = Some sm"
      and last: "edtasm_body opts sm EOLCHAR = Continue s2"
      by (auto simp: feed_append split: option.splits step.splits)
    from text_keeps_state [OF _ chars mid] have "state sm = ES_LINETXT" "lncc sm = 0"
      by simp_all
    with eol_keeps_count [OF _ last] have "state s2 = ES_LINENUM" "tlcc s2 = 0" "lncc s2 = 0"
      by simp_all
    then have s2: "s2 = \<lparr>state = ES_LINENUM, fnc = fnc s2, lncc = 0, tlcc = 0,
        outfile = outfile s2, errfile = errfile s2\<rparr>"
      by (cases s2) simp
    have "edtasm_loop opts ?s1 ((chars @ [EOLCHAR]) @ t) = edtasm_loop opts s2 t"
      "edtasm_loop opts ?s1 ((chars @ [EOLCHAR]) @ t') = edtasm_loop opts s2 t'"
      unfolding edtasm_loop_def by (rule feed_read_loop [OF Some])+
    moreover have "observed (edtasm_loop opts s2 t) = observed (edtasm_loop opts s2 t')"
      by (subst (1 2) s2) (rule tails)
    ultimately show ?thesis
      unfolding one two by simp
  qed
qed

lemma stripped_lines_lockstep:
  assumes "Show_Linenums opts = 0" and "list_all2 same_text recs recs'"
    and "list_all well_formed_line recs" and "list_all well_formed_line recs'"
  shows "observed (edtasm_loop opts
        \<lparr>state = ES_LINENUM, fnc = f, lncc = 0, tlcc = 0, outfile = out, errfile = err\<rparr>
        (concat (map line_bytes recs) @ t)) =
      observed (edtasm_loop opts
        \<lparr>state = ES_LINENUM, fnc = f, lncc = 0, tlcc = 0, outfile = out, errfile = err\<rparr>
        (concat (map line_bytes recs') @ t))"
  using assms(2,3,4)
proof (induction arbitrary: f out err rule: list_all2_induct)
  case Nil
  then show ?case by simp
next
  case (Cons r recs r' recs')
  have "observed (edtasm_loop opts
        \<lparr>state = ES_LINENUM, fnc = f, lncc = 0, tlcc = 0, outfile = out, errfile = err\<rparr>
        (line_bytes r @ concat (map line_bytes recs) @ t)) =
      observed (edtasm_loop opts
        \<lparr>state = ES_LINENUM, fnc = f, lncc = 0, tlcc = 0, outfile = out, errfile = err\<rparr>
        (line_bytes r' @ concat (map line_bytes recs') @ t))"
    using Cons.prems Cons.hyps(1) Cons.IH
    by (intro stripped_line_lockstep [OF assms(1)]) simp_all
  then show ?case by simp
qed

lemma stripped_streams_agree:
  assumes "length fn = 6" and "list_all2 same_text recs recs'"
    and "list_all well_formed_line recs" and "list_all well_formed_line recs'"
  shows "observed (edtasm_process_file
        \<lparr>Cvt_Newer_Format = c, Show_File_Hdr = 0, Show_Linenums = 0\<rparr> (edtasm_stream fn recs)) =
      observed (edtasm_process_file
        \<lparr>Cvt_Newer_Format = c', Show_File_Hdr = 0, Show_Linenums = 0\<rparr> (edtasm_stream fn recs'))"
proof -
  let ?o = "\<lparr>Cvt_Newer_Format = c, Show_File_Hdr = 0, Show_Linenums = 0\<rparr>"
  let ?o' = "\<lparr>Cvt_Newer_Format = c', Show_File_Hdr = 0, Show_Linenums = 0\<rparr>"
  have body: "edtasm_body ?o' = edtasm_body ?o"
    by (rule strip_body_cvt) simp_all
  have start: "edtasm_process_file ?o (edtasm_stream fn rs) =
      edtasm_loop ?o
        \<lparr>state = ES_LINENUM, fnc = 0, lncc = 0, tlcc = 0, outfile = [], errfile = []\<rparr>
        (concat (map line_bytes rs) @ [EOFCHAR])" for rs
    using run_fname [OF _ assms(1), of ?o]
    by (simp add: edtasm_process_file_def edtasm_stream_def edtasm_init_def edtasm_loop_Cons
        edtasm_body_def)
  have "edtasm_process_file ?o' (edtasm_stream fn recs') =
      edtasm_process_file ?o (edtasm_stream fn recs')"
    by (simp add: edtasm_process_file_def edtasm_loop_def body)
  with stripped_lines_lockstep [OF _ assms(2,3,4), of ?o 0 "[]" "[]" "[EOFCHAR]"]
  show ?thesis
    by (simp add: start)
qed

section \<open>edtasmcvt: the claims\<close>

text \<open>
  Claim C1 (round trip).  As stated, for every stream made of the 7-byte header, N
  well-formed line records and the end-of-file mark, the converter with default options
  returns 0 and writes the N lines: digits with the high bit cleared, the separator, the
  text, a newline.

  The claim holds for every such stream whose lines each have fewer than 4294967295 text
  bytes (\<open>line_fits\<close>): the run returns 0, the output is exactly the N numbered lines,
  and the first five bytes of each are decimal digits.
\<close>

theorem edtasm_round_trip:
  assumes "length fn = 6" and "list_all well_formed_line recs" and "list_all line_fits recs"
  shows "edtasm_process_file edtasm_defaults (edtasm_stream fn recs) =
      Returned 0 \<lparr>state = ES_LINENUM, fnc = 0, lncc = 0, tlcc = 0,
        outfile = concat (map numbered_line recs), errfile = []\<rparr> [] \<and>
    list_all (\<lambda>r. list_all (\<lambda>c. 0x30 \<le> c \<and> c \<le> 0x39) (take 5 (numbered_line r))) recs"
proof
  have "emitted_line edtasm_defaults = numbered_line"
    by (rule ext)
      (simp add: emitted_line_def numbered_line_def edtasm_defaults_def split: prod.splits)
  with run_stream [OF _ assms, of edtasm_defaults]
  show "edtasm_process_file edtasm_defaults (edtasm_stream fn recs) =
      Returned 0 \<lparr>state = ES_LINENUM, fnc = 0, lncc = 0, tlcc = 0,
        outfile = concat (map numbered_line recs), errfile = []\<rparr> []"
    by (simp add: edtasm_defaults_def)
  show "list_all (\<lambda>r. list_all (\<lambda>c. 0x30 \<le> c \<and> c \<le> 0x39) (take 5 (numbered_line r))) recs"
    using assms(2) by (induction recs) (simp_all add: numbered_line_digits)
qed

theorem edtasm_round_trip_witness:
  "length [0x41, 0x42, 0x43, 0x20, 0x20, 0x20 :: byte] = 6 \<and>
   list_all well_formed_line
     [([0xb0, 0xb0, 0xb1, 0xb0, 0xb0], 0x20, [0x4c, 0x44]),
      ([0xb0, 0xb0, 0xb1, 0xb1, 0xb0], 0x09, [])] \<and>
   list_all line_fits
     [([0xb0, 0xb0, 0xb1, 0xb0, 0xb0], 0x20, [0x4c, 0x44]),
      ([0xb0, 0xb0, 0xb1, 0xb1, 0xb0], 0x09, [])] \<and>
   edtasm_process_file edtasm_defaults
     [0xd3, 0x41, 0x42, 0x43, 0x20, 0x20, 0x20,
      0xb0, 0xb0, 0xb1, 0xb0, 0xb0, 0x20, 0x4c, 0x44, 0x0d,
      0xb0, 0xb0, 0xb1, 0xb1, 0xb0, 0x09, 0x0d, 0x1a] =
   Returned 0 \<lparr>state = ES_LINENUM, fnc = 0, lncc = 0, tlcc = 0,
     outfile = [0x30, 0x30, 0x31, 0x30, 0x30, 0x20, 0x4c, 0x44, 0x0a,
                0x30, 0x30, 0x31, 0x31, 0x30, 0x09, 0x0a],
     errfile = []\<rparr> []"
  using edtasm_round_trip [of "[0x41, 0x42, 0x43, 0x20, 0x20, 0x20]"
      "[([0xb0, 0xb0, 0xb1, 0xb0, 0xb0], 0x20, [0x4c, 0x44]),
        ([0xb0, 0xb0, 0xb1, 0xb1, 0xb0], 0x09, [])]"]
  by (simp add: well_formed_line_def line_fits_def LINENUMCHAR_def EOLCHAR_def EOFCHAR_def
      HEADERCHAR_def NL_def numbered_line_def edtasm_stream_def line_bytes_def)

text \<open>
  Without the bound the claim fails.  \<^verbatim>\<open>tlcc\<close> counts the bytes of a line in 32 bits, and
  after the separator and 4294967295 text bytes it is 0 again: the end-of-line byte is
  then taken for the byte after the line number, and the run returns 2.
\<close>

theorem edtasm_round_trip_counterexample:
  "length (replicate 6 (0x20 :: byte)) = 6 \<and>
   list_all well_formed_line [(replicate 5 0xb0, 0x20, replicate 4294967295 0x41)] \<and>
   return_value (edtasm_process_file edtasm_defaults
     (edtasm_stream (replicate 6 0x20) [(replicate 5 0xb0, 0x20, replicate 4294967295 0x41)])) =
     Some 2"
  using run_wrapped_line [of edtasm_defaults "0x41" "[]"]
    wrapped_line_well_formed [of "0x41" "[]"]
  by (simp add: edtasm_defaults_def edtasm_loop_Cons edtasm_body_def edtasm_switch_def
      case_LINETXT_def EOLCHAR_def)

text \<open>
  Claim C6 (stripping line numbers).  As stated, on every well-formed input the output
  with \<^verbatim>\<open>-s\<close> equals the default output with the first 6 bytes of each line removed,
  and holds only the N text lines, each with its newline.

  This holds for every well-formed stream whose lines each have fewer than 4294967295
  text bytes: the default run writes the numbered lines, the \<^verbatim>\<open>-s\<close> run writes each of
  those lines without its first 6 bytes, and these are the text lines.
\<close>

theorem strip_line_numbers:
  assumes "length fn = 6" and "list_all well_formed_line recs" and "list_all line_fits recs"
  shows "edtasm_process_file edtasm_defaults (edtasm_stream fn recs) =
      Returned 0 \<lparr>state = ES_LINENUM, fnc = 0, lncc = 0, tlcc = 0,
        outfile = concat (map numbered_line recs), errfile = []\<rparr> [] \<and>
    edtasm_process_file (edtasm_defaults\<lparr>Show_Linenums := 0\<rparr>) (edtasm_stream fn recs) =
      Returned 0 \<lparr>state = ES_LINENUM, fnc = 0, lncc = 0, tlcc = 0,
        outfile = concat (map (drop 6) (map numbered_line recs)), errfile = []\<rparr> [] \<and>
    map (drop 6) (map numbered_line recs) = map text_line recs"
proof (intro conjI)
  have same: "map (drop 6) (map numbered_line recs) = map text_line recs"
    using assms(2) by (induction recs) (simp_all add: drop_number)
  then show "map (drop 6) (map numbered_line recs) = map text_line recs" .
  show "edtasm_process_file edtasm_defaults (edtasm_stream fn recs) =
      Returned 0 \<lparr>state = ES_LINENUM, fnc = 0, lncc = 0, tlcc = 0,
        outfile = concat (map numbered_line recs), errfile = []\<rparr> []"
  proof -
    have hdr: "Show_File_Hdr edtasm_defaults = 0"
      by (simp add: edtasm_defaults_def)
    have "emitted_line edtasm_defaults = numbered_line"
      by (rule ext) (rule emitted_default)
    then show ?thesis
      by (simp only: run_stream [OF hdr assms])
  qed
  show "edtasm_process_file (edtasm_defaults\<lparr>Show_Linenums := 0\<rparr>) (edtasm_stream fn recs) =
      Returned 0 \<lparr>state = ES_LINENUM, fnc = 0, lncc = 0, tlcc = 0,
        outfile = concat (map (drop 6) (map numbered_line recs)), errfile = []\<rparr> []"
  proof -
    have hdr: "Show_File_Hdr (edtasm_defaults\<lparr>Show_Linenums := 0\<rparr>) = 0"
      by (simp add: edtasm_defaults_def)
    have "emitted_line (edtasm_defaults\<lparr>Show_Linenums := 0\<rparr>) = text_line"
      by (rule ext) (simp add: emitted_stripped)
    then show ?thesis
      by (simp only: run_stream [OF hdr assms] same)
  qed
qed

theorem strip_line_numbers_witness:
  "length [0x41, 0x42, 0x43, 0x20, 0x20, 0x20 :: byte] = 6 \<and>
   list_all well_formed_line
     [([0xb0, 0xb0, 0xb1, 0xb0, 0xb0], 0x20, [0x4c, 0x44]),
      ([0xb0, 0xb0, 0xb1, 0xb1, 0xb0], 0x09, [])] \<and>
   list_all line_fits
     [([0xb0, 0xb0, 0xb1, 0xb0, 0xb0], 0x20, [0x4c, 0x44]),
      ([0xb0, 0xb0, 0xb1, 0xb1, 0xb0], 0x09, [])] \<and>
   edtasm_process_file (edtasm_defaults\<lparr>Show_Linenums := 0\<rparr>)
     [0xd3, 0x41, 0x42, 0x43, 0x20, 0x20, 0x20,
      0xb0, 0xb0, 0xb1, 0xb0, 0xb0, 0x20, 0x4c, 0x44, 0x0d,
      0xb0, 0xb0, 0xb1, 0xb1, 0xb0, 0x09, 0x0d, 0x1a] =
   Returned 0 \<lparr>state = ES_LINENUM, fnc = 0, lncc = 0, tlcc = 0,
     outfile = [0x4c, 0x44, 0x0a, 0x0a], errfile = []\<rparr> []"
  using strip_line_numbers [of "[0x41, 0x42, 0x43, 0x20, 0x20, 0x20]"
      "[([0xb0, 0xb0, 0xb1, 0xb0, 0xb0], 0x20, [0x4c, 0x44]),
        ([0xb0, 0xb0, 0xb1, 0xb1, 0xb0], 0x09, [])]"]
  by (simp add: well_formed_line_def line_fits_def LINENUMCHAR_def EOLCHAR_def EOFCHAR_def
      HEADERCHAR_def NL_def numbered_line_def edtasm_stream_def line_bytes_def)

text \<open>
  Without the bound the \<^verbatim>\<open>-s\<close> run of a well-formed stream can return 2 in the middle
  of a line, for the same reason as above.
\<close>

theorem strip_line_numbers_counterexample:
  "length (replicate 6 (0x20 :: byte)) = 6 \<and>
   list_all well_formed_line [(replicate 5 0xb0, 0x20, replicate 4294967295 0x42)] \<and>
   return_value (edtasm_process_file (edtasm_defaults\<lparr>Show_Linenums := 0\<rparr>)
     (edtasm_stream (replicate 6 0x20) [(replicate 5 0xb0, 0x20, replicate 4294967295 0x42)])) =
     Some 2"
  using run_wrapped_line [of "edtasm_defaults\<lparr>Show_Linenums := 0\<rparr>" "0x42" "[]"]
    wrapped_line_well_formed [of "0x42" "[]"]
  by (simp add: edtasm_defaults_def edtasm_loop_Cons edtasm_body_def edtasm_switch_def
      case_LINETXT_def EOLCHAR_def)

text \<open>
  Claim C7 (conversion of the separator).  As stated, with line numbers shown \<^verbatim>\<open>-c\<close>
  turns the space after each line number into a tab, and with \<^verbatim>\<open>-s\<close> the output
  depends neither on \<^verbatim>\<open>-c\<close> nor on the separators of the input.

  The second part holds for all well-formed streams: with \<^verbatim>\<open>-s\<close>, two streams that
  differ at most in their separators, run under any two values of the conversion flag,
  return the same value and write the same bytes to both streams.  The first part holds
  when each line has fewer than 4294967295 text bytes: with numbers shown and \<^verbatim>\<open>-c\<close>, a
  stream with space separators gives exactly the lines with a tab after the number; and
  under the same bound the \<^verbatim>\<open>-s\<close> output is the text lines.
\<close>

theorem convert_separator:
  assumes "length fn = 6" and "list_all well_formed_line recs"
  shows "(list_all line_fits recs \<and> list_all (\<lambda>r. fst (snd r) = 0x20) recs \<longrightarrow>
       edtasm_process_file (edtasm_defaults\<lparr>Cvt_Newer_Format := 1\<rparr>) (edtasm_stream fn recs) =
         Returned 0 \<lparr>state = ES_LINENUM, fnc = 0, lncc = 0, tlcc = 0,
           outfile = concat (map tabbed_line recs), errfile = []\<rparr> []) \<and>
    (list_all well_formed_line recs' \<and> list_all2 same_text recs recs' \<longrightarrow>
       observed (edtasm_process_file
         \<lparr>Cvt_Newer_Format = c, Show_File_Hdr = 0, Show_Linenums = 0\<rparr> (edtasm_stream fn recs)) =
       observed (edtasm_process_file
         \<lparr>Cvt_Newer_Format = c', Show_File_Hdr = 0, Show_Linenums = 0\<rparr>
         (edtasm_stream fn recs'))) \<and>
    (list_all line_fits recs \<longrightarrow>
       edtasm_process_file \<lparr>Cvt_Newer_Format = c, Show_File_Hdr = 0, Show_Linenums = 0\<rparr>
         (edtasm_stream fn recs) =
         Returned 0 \<lparr>state = ES_LINENUM, fnc = 0, lncc = 0, tlcc = 0,
           outfile = concat (map text_line recs), errfile = []\<rparr> [])"
proof (intro conjI impI)
  assume h: "list_all line_fits recs \<and> list_all (\<lambda>r. fst (snd r) = 0x20) recs"
  then have "list_all (\<lambda>r. fst (snd r) = 0x20) recs" by simp
  then have tabbed: "map (emitted_line (edtasm_defaults\<lparr>Cvt_Newer_Format := 1\<rparr>)) recs =
      map tabbed_line recs"
    by (induction recs) (simp_all add: emitted_tabbed edtasm_defaults_def)
  have hdr: "Show_File_Hdr (edtasm_defaults\<lparr>Cvt_Newer_Format := 1\<rparr>) = 0"
    by (simp add: edtasm_defaults_def)
  from h have fits: "list_all line_fits recs" by simp
  show "edtasm_process_file (edtasm_defaults\<lparr>Cvt_Newer_Format := 1\<rparr>) (edtasm_stream fn recs) =
      Returned 0 \<lparr>state = ES_LINENUM, fnc = 0, lncc = 0, tlcc = 0,
        outfile = concat (map tabbed_line recs), errfile = []\<rparr> []"
    by (simp only: run_stream [OF hdr assms fits] tabbed)
next
  assume "list_all well_formed_line recs' \<and> list_all2 same_text recs recs'"
  then have "list_all2 same_text recs recs'" "list_all well_formed_line recs'"
    by simp_all
  from stripped_streams_agree [OF assms(1) this(1) assms(2) this(2)]
  show "observed (edtasm_process_file
         \<lparr>Cvt_Newer_Format = c, Show_File_Hdr = 0, Show_Linenums = 0\<rparr> (edtasm_stream fn recs)) =
       observed (edtasm_process_file
         \<lparr>Cvt_Newer_Format = c', Show_File_Hdr = 0, Show_Linenums = 0\<rparr>
         (edtasm_stream fn recs'))" .
next
  let ?o = "\<lparr>Cvt_Newer_Format = c, Show_File_Hdr = 0, Show_Linenums = 0\<rparr>"
  assume fits: "list_all line_fits recs"
  have "emitted_line ?o = text_line"
    by (rule ext) (simp add: emitted_stripped)
  moreover have "Show_File_Hdr ?o = 0" by simp
  ultimately show "edtasm_process_file ?o (edtasm_stream fn recs) =
      Returned 0 \<lparr>state = ES_LINENUM, fnc = 0, lncc = 0, tlcc = 0,
        outfile = concat (map text_line recs), errfile = []\<rparr> []"
    by (simp only: run_stream [OF _ assms fits])
qed

theorem convert_separator_witness:
  "length [0x41, 0x42, 0x43, 0x20, 0x20, 0x20 :: byte] = 6 \<and>
   list_all well_formed_line [([0xb0, 0xb0, 0xb1, 0xb0, 0xb0], 0x20, [0x4c, 0x44])] \<and>
   list_all line_fits [([0xb0, 0xb0, 0xb1, 0xb0, 0xb0], 0x20, [0x4c, 0x44])] \<and>
   list_all (\<lambda>r. fst (snd r) = 0x20) [([0xb0, 0xb0, 0xb1, 0xb0, 0xb0], 0x20, [0x4c, 0x44])] \<and>
   list_all well_formed_line [([0xb0, 0xb0, 0xb1, 0xb0, 0xb0], 0x09, [0x4c, 0x44])] \<and>
   list_all2 same_text [([0xb0, 0xb0, 0xb1, 0xb0, 0xb0], 0x20, [0x4c, 0x44])]
     [([0xb0, 0xb0, 0xb1, 0xb0, 0xb0], 0x09, [0x4c, 0x44])] \<and>
   edtasm_process_file (edtasm_defaults\<lparr>Cvt_Newer_Format := 1\<rparr>)
     [0xd3, 0x41, 0x42, 0x43, 0x20, 0x20, 0x20,
      0xb0, 0xb0, 0xb1, 0xb0, 0xb0, 0x20, 0x4c, 0x44, 0x0d, 0x1a] =
     Returned 0 \<lparr>state = ES_LINENUM, fnc = 0, lncc = 0, tlcc = 0,
       outfile = [0x30, 0x30, 0x31, 0x30, 0x30, 0x09, 0x4c, 0x44, 0x0a], errfile = []\<rparr> [] \<and>
   observed (edtasm_process_file \<lparr>Cvt_Newer_Format = 0, Show_File_Hdr = 0, Show_Linenums = 0\<rparr>
     [0xd3, 0x41, 0x42, 0x43, 0x20, 0x20, 0x20,
      0xb0, 0xb0, 0xb1, 0xb0, 0xb0, 0x20, 0x4c, 0x44, 0x0d, 0x1a]) =
   observed (edtasm_process_file \<lparr>Cvt_Newer_Format = 1, Show_File_Hdr = 0, Show_Linenums = 0\<rparr>
     [0xd3, 0x41, 0x42, 0x43, 0x20, 0x20, 0x20,
      0xb0, 0xb0, 0xb1, 0xb0, 0xb0, 0x09, 0x4c, 0x44, 0x0d, 0x1a]) \<and>
   edtasm_process_file \<lparr>Cvt_Newer_Format = 0, Show_File_Hdr = 0, Show_Linenums = 0\<rparr>
     [0xd3, 0x41, 0x42, 0x43, 0x20, 0x20, 0x20,
      0xb0, 0xb0, 0xb1, 0xb0, 0xb0, 0x20, 0x4c, 0x44, 0x0d, 0x1a] =
     Returned 0 \<lparr>state = ES_LINENUM, fnc = 0, lncc = 0, tlcc = 0,
       outfile = [0x4c, 0x44, 0x0a], errfile = []\<rparr> []"
  using convert_separator [of "[0x41, 0x42, 0x43, 0x20, 0x20, 0x20]"
      "[([0xb0, 0xb0, 0xb1, 0xb0, 0xb0], 0x20, [0x4c, 0x44])]"
      "[([0xb0, 0xb0, 0xb1, 0xb0, 0xb0], 0x09, [0x4c, 0x44])]" 0 1]
  by (auto simp: well_formed_line_def line_fits_def LINENUMCHAR_def EOLCHAR_def EOFCHAR_def
      HEADERCHAR_def NL_def tabbed_line_def text_line_def edtasm_stream_def line_bytes_def
      same_text_def)

text \<open>
  Without the bound the first part fails.  A line of 4294967295 text bytes ends the
  \<^verbatim>\<open>-c\<close> run with 2 at its end-of-line byte.  And \<^verbatim>\<open>-c\<close> changes more than the
  separator: in a line whose text is 4294967295 bytes followed by a space, that space is
  read with \<^verbatim>\<open>tlcc\<close> back at 0 and written as a tab, where the line with its separator
  converted ends in the space.
\<close>

theorem convert_separator_counterexample:
  "length (replicate 6 (0x20 :: byte)) = 6 \<and>
   list_all well_formed_line [(replicate 5 0xb0, 0x20, replicate 4294967295 0x43)] \<and>
   list_all (\<lambda>r. fst (snd r) = 0x20) [(replicate 5 0xb0, 0x20, replicate 4294967295 0x43)] \<and>
   return_value (edtasm_process_file (edtasm_defaults\<lparr>Cvt_Newer_Format := 1\<rparr>)
     (edtasm_stream (replicate 6 0x20) [(replicate 5 0xb0, 0x20, replicate 4294967295 0x43)])) =
     Some 2 \<and>
   list_all well_formed_line [(replicate 5 0xb0, 0x20, replicate 4294967295 0x41 @ [0x20])] \<and>
   list_all (\<lambda>r. fst (snd r) = 0x20) [(replicate 5 0xb0, 0x20, replicate 4294967295 0x41 @ [0x20])] \<and>
   edtasm_process_file (edtasm_defaults\<lparr>Cvt_Newer_Format := 1\<rparr>)
     (edtasm_stream (replicate 6 0x20)
        [(replicate 5 0xb0, 0x20, replicate 4294967295 0x41 @ [0x20])]) =
     Returned 0 \<lparr>state = ES_LINENUM, fnc = 0, lncc = 0, tlcc = 0,
       outfile = replicate 5 0x30 @ [0x09] @ replicate 4294967295 0x41 @ [0x09, 0x0a],
       errfile = []\<rparr> [] \<and>
   concat (map tabbed_line [(replicate 5 0xb0, 0x20, replicate 4294967295 0x41 @ [0x20])]) =
     replicate 5 0x30 @ [0x09] @ replicate 4294967295 0x41 @ [0x20, 0x0a]"
proof -
  have short: "return_value (edtasm_process_file (edtasm_defaults\<lparr>Cvt_Newer_Format := 1\<rparr>)
     (edtasm_stream (replicate 6 0x20) [(replicate 5 0xb0, 0x20, replicate 4294967295 0x43)])) =
     Some 2"
    using run_wrapped_line [of "edtasm_defaults\<lparr>Cvt_Newer_Format := 1\<rparr>" "0x43" "[]"]
    by (simp add: edtasm_defaults_def edtasm_loop_Cons edtasm_body_def edtasm_switch_def
        case_LINETXT_def EOLCHAR_def)
  show ?thesis
    using run_wrapped_line [of "edtasm_defaults\<lparr>Cvt_Newer_Format := 1\<rparr>" "0x41" "[0x20]"]
      wrapped_line_well_formed [of "0x41" "[0x20]"] wrapped_line_well_formed [of "0x43" "[]"]
      wrapped_tail [of "edtasm_defaults\<lparr>Cvt_Newer_Format := 1\<rparr>"] short
    by (simp add: edtasm_defaults_def EOLCHAR_def tabbed_line_def NL_def)
qed

text \<open>
  Claim C8 (clean termination).  The converter returns 0 in exactly two ways: the stream
  is exhausted, in whatever state, or the byte 0x1A is read in the line-number state
  (whatever the count of digits read so far).  A pass of the loop body returns 0 only for
  0x1A in the line-number state; the loop on an empty rest of the stream ends in any
  state; and a stream that is consumed without a return leaves standard error empty.
\<close>

theorem edtasm_clean_termination:
  "(return_value (edtasm_process_file opts input) = Some 0 \<longleftrightarrow>
      (\<exists>v. feed (edtasm_body opts) edtasm_init input = Some v) \<or>
      (\<exists>pre rest v. input = pre @ EOFCHAR # rest \<and>
         feed (edtasm_body opts) edtasm_init pre = Some v \<and> state v = ES_LINENUM)) \<and>
   (edtasm_body opts v ch = Return 0 v' \<longleftrightarrow> state v = ES_LINENUM \<and> ch = EOFCHAR \<and> v' = v) \<and>
   edtasm_loop opts v [] = Exhausted v \<and>
   (feed (edtasm_body opts) edtasm_init input = Some v \<longrightarrow>
      edtasm_process_file opts input = Exhausted v \<and> errfile v = [])"
proof (intro conjI impI)
  show "return_value (edtasm_process_file opts input) = Some 0 \<longleftrightarrow>
      (\<exists>v. feed (edtasm_body opts) edtasm_init input = Some v) \<or>
      (\<exists>pre rest v. input = pre @ EOFCHAR # rest \<and>
         feed (edtasm_body opts) edtasm_init pre = Some v \<and> state v = ES_LINENUM)"
  proof (cases "edtasm_process_file opts input")
    case (Exhausted v)
    then have "feed (edtasm_body opts) edtasm_init input = Some v"
      by (simp add: edtasm_process_file_def edtasm_loop_def read_loop_Exhausted)
    with Exhausted show ?thesis by auto
  next
    case (Returned r v1 rest)
    then obtain pre ch vp where h: "input = pre @ ch # rest"
      "feed (edtasm_body opts) edtasm_init pre = Some vp" "edtasm_body opts vp ch = Return r v1"
      by (auto simp: edtasm_process_file_def edtasm_loop_def read_loop_Returned)
    have no: "\<not> (\<exists>v. feed (edtasm_body opts) edtasm_init input = Some v)"
      using Returned
      by (auto simp: edtasm_process_file_def edtasm_loop_def read_loop_Exhausted [symmetric])
    show ?thesis
    proof
      assume "return_value (edtasm_process_file opts input) = Some 0"
      with Returned have "r = 0" by simp
      with h(3) have "state vp = ES_LINENUM" "ch = EOFCHAR"
        by (simp_all add: edtasm_return_0)
      with h show "(\<exists>v. feed (edtasm_body opts) edtasm_init input = Some v) \<or>
        (\<exists>pre rest v. input = pre @ EOFCHAR # rest \<and>
           feed (edtasm_body opts) edtasm_init pre = Some v \<and> state v = ES_LINENUM)"
        by blast
    next
      assume "(\<exists>v. feed (edtasm_body opts) edtasm_init input = Some v) \<or>
        (\<exists>pre rest v. input = pre @ EOFCHAR # rest \<and>
           feed (edtasm_body opts) edtasm_init pre = Some v \<and> state v = ES_LINENUM)"
      with no obtain pre' rest' v' where h': "input = pre' @ EOFCHAR # rest'"
        "feed (edtasm_body opts) edtasm_init pre' = Some v'" "state v' = ES_LINENUM"
        by blast
      then have "edtasm_body opts v' EOFCHAR = Return 0 v'"
        by (simp add: edtasm_return_0)
      with h' have "edtasm_process_file opts input = Returned 0 v' rest'"
        unfolding edtasm_process_file_def edtasm_loop_def read_loop_Returned by blast
      then show "return_value (edtasm_process_file opts input) = Some 0" by simp
    qed
  next
    case Crashed
    then have False
      using read_loop_Crashed [of "edtasm_body opts" edtasm_init input] edtasm_never_undefined
      by (auto simp: edtasm_process_file_def edtasm_loop_def)
    then show ?thesis ..
  qed
next
  show "edtasm_body opts v ch = Return 0 v' \<longleftrightarrow> state v = ES_LINENUM \<and> ch = EOFCHAR \<and> v' = v"
    by (rule edtasm_return_0)
next
  show "edtasm_loop opts v [] = Exhausted v"
    by (rule edtasm_loop_Nil)
next
  assume f: "feed (edtasm_body opts) edtasm_init input = Some v"
  then show "edtasm_process_file opts input = Exhausted v"
    by (simp add: edtasm_process_file_def edtasm_loop_def read_loop_Exhausted)
  from edtasm_feed_errfile [OF f] show "errfile v = []"
    by (simp add: edtasm_init_def)
qed

theorem edtasm_clean_termination_witness:
  "feed (edtasm_body edtasm_defaults) edtasm_init [0xd3, 0x41, 0x42] =
     Some \<lparr>state = ES_FNAME, fnc = 2, lncc = 0, tlcc = 0, outfile = [], errfile = []\<rparr> \<and>
   edtasm_process_file edtasm_defaults [0xd3, 0x41, 0x42] =
     Exhausted \<lparr>state = ES_FNAME, fnc = 2, lncc = 0, tlcc = 0, outfile = [], errfile = []\<rparr> \<and>
   return_value (edtasm_process_file edtasm_defaults [0xd3, 0x41, 0x42]) = Some 0"
proof -
  have f: "feed (edtasm_body edtasm_defaults) edtasm_init [0xd3, 0x41, 0x42] =
     Some \<lparr>state = ES_FNAME, fnc = 2, lncc = 0, tlcc = 0, outfile = [], errfile = []\<rparr>"
    by (simp add: edtasm_body_def edtasm_switch_def case_FNAME_def edtasm_init_def
        edtasm_defaults_def HEADERCHAR_def)
  from edtasm_clean_termination [of edtasm_defaults "[0xd3, 0x41, 0x42]"
      "\<lparr>state = ES_FNAME, fnc = 2, lncc = 0, tlcc = 0, outfile = [], errfile = []\<rparr>"] f
  show ?thesis by simp
qed

text \<open>
  Claim C10 (line text is echoed).  As stated, in the line-text state every byte after the
  first that is not 0x0D is echoed verbatim, 0x1A included, and 0x1A ends the run cleanly
  only where a line-number byte is expected.

  The code tells the first byte of a line's text from the others by \<^verbatim>\<open>tlcc\<close> being 0.
  What holds is: a byte other than 0x0D read in the line-text state with \<^verbatim>\<open>tlcc\<close> not 0
  is echoed and the state kept, 0x1A included; after the separator, up to 4294967295
  bytes without 0x0D are all echoed; and a pass returns 0 only for 0x1A in the line-number
  state.
\<close>

theorem line_text_echo:
  "(state v = ES_LINETXT \<and> tlcc v \<noteq> 0 \<and> ch \<noteq> EOLCHAR \<longrightarrow>
      edtasm_body opts v ch = Continue (v\<lparr>tlcc := tlcc v + 1, outfile := outfile v @ [ch]\<rparr>)) \<and>
   (state v = ES_LINETXT \<and> tlcc v \<noteq> 0 \<longrightarrow>
      edtasm_body opts v EOFCHAR =
        Continue (v\<lparr>tlcc := tlcc v + 1, outfile := outfile v @ [EOFCHAR]\<rparr>)) \<and>
   (state v = ES_LINETXT \<and> tlcc v = 1 \<and> EOLCHAR \<notin> set chars \<and> length chars < 4294967296 \<longrightarrow>
      edtasm_loop opts v (chars @ rest) =
        edtasm_loop opts (v\<lparr>tlcc := 1 + of_nat (length chars), outfile := outfile v @ chars\<rparr>)
          rest) \<and>
   (edtasm_body opts v ch = Return 0 v' \<longrightarrow> state v = ES_LINENUM \<and> ch = EOFCHAR)"
proof (intro conjI impI)
  assume "state v = ES_LINETXT \<and> tlcc v \<noteq> 0 \<and> ch \<noteq> EOLCHAR"
  then show "edtasm_body opts v ch =
      Continue (v\<lparr>tlcc := tlcc v + 1, outfile := outfile v @ [ch]\<rparr>)"
    by (simp add: edtasm_body_def edtasm_switch_def case_LINETXT_def fputs_out_def)
next
  assume "state v = ES_LINETXT \<and> tlcc v \<noteq> 0"
  then show "edtasm_body opts v EOFCHAR =
      Continue (v\<lparr>tlcc := tlcc v + 1, outfile := outfile v @ [EOFCHAR]\<rparr>)"
    by (simp add: edtasm_body_def edtasm_switch_def case_LINETXT_def fputs_out_def
        EOFCHAR_def EOLCHAR_def)
next
  assume h: "state v = ES_LINETXT \<and> tlcc v = 1 \<and> EOLCHAR \<notin> set chars \<and>
    length chars < 4294967296"
  then have v: "v = \<lparr>state = ES_LINETXT, fnc = fnc v, lncc = lncc v, tlcc = 1,
      outfile = outfile v, errfile = errfile v\<rparr>"
    by (cases v) simp
  from h have inrange:
    "chars = [] \<or> ((1 :: 32 word) \<noteq> 0 \<and> unat (1 :: 32 word) + length chars \<le> 2 ^ 32)"
    by simp
  from h have noeol: "EOLCHAR \<notin> set chars" by simp
  show "edtasm_loop opts v (chars @ rest) =
      edtasm_loop opts (v\<lparr>tlcc := 1 + of_nat (length chars), outfile := outfile v @ chars\<rparr>) rest"
    by (subst (1 2) v) (simp add: run_text [OF noeol inrange])
next
  assume "edtasm_body opts v ch = Return 0 v'"
  then show "state v = ES_LINENUM" "ch = EOFCHAR"
    by (simp_all add: edtasm_return_0)
qed

theorem line_text_echo_witness:
  "edtasm_body edtasm_defaults
     \<lparr>state = ES_LINETXT, fnc = 0, lncc = 0, tlcc = 1, outfile = [0x20], errfile = []\<rparr> 0x1a =
     Continue \<lparr>state = ES_LINETXT, fnc = 0, lncc = 0, tlcc = 2, outfile = [0x20, 0x1a],
       errfile = []\<rparr> \<and>
   edtasm_loop edtasm_defaults
     \<lparr>state = ES_LINETXT, fnc = 0, lncc = 0, tlcc = 1, outfile = [0x20], errfile = []\<rparr>
     ([0x41, 0x1a, 0x42] @ []) =
   edtasm_loop edtasm_defaults
     \<lparr>state = ES_LINETXT, fnc = 0, lncc = 0, tlcc = 4, outfile = [0x20, 0x41, 0x1a, 0x42],
      errfile = []\<rparr> [] \<and>
   edtasm_body edtasm_defaults
     \<lparr>state = ES_LINENUM, fnc = 0, lncc = 3, tlcc = 0, outfile = [], errfile = []\<rparr> 0x1a =
     Return 0 \<lparr>state = ES_LINENUM, fnc = 0, lncc = 3, tlcc = 0, outfile = [], errfile = []\<rparr>"
  using line_text_echo [of
      "\<lparr>state = ES_LINETXT, fnc = 0, lncc = 0, tlcc = 1, outfile = [0x20], errfile = []\<rparr>"
      "0x1a" edtasm_defaults "[0x41, 0x1a, 0x42]" "[]"]
  by (simp add: EOLCHAR_def EOFCHAR_def)
     (simp add: edtasm_body_def edtasm_switch_def case_LINENUM_def LINENUMCHAR_def EOFCHAR_def)

text \<open>
  The byte number 4294967296 after the separator is not echoed: \<^verbatim>\<open>tlcc\<close> is 0 when it
  is read.  Here it is 0x1A; it is refused as a separator and the run returns 2.
\<close>

theorem line_text_echo_counterexample:
  "edtasm_process_file edtasm_defaults
     (edtasm_stream (replicate 6 0x20)
        [(replicate 5 0xb0, 0x20, replicate 4294967295 0x41 @ [0x1a])]) =
     Returned 2 \<lparr>state = ES_LINETXT, fnc = 0, lncc = 0, tlcc = 1,
       outfile = replicate 5 0x30 @ [0x20] @ replicate 4294967295 0x41,
       errfile = bytes_of ''Unexpected character following line number (1a).'' @ [0x0a]\<rparr>
       [0x0d, 0x1a]"
  using run_wrapped_line [of edtasm_defaults "0x41" "[0x1a]"]
  by (simp add: edtasm_defaults_def EOLCHAR_def EOFCHAR_def NL_def edtasm_loop_Cons
      edtasm_body_def edtasm_switch_def case_LINETXT_def fputs_err_def fmt_x_def
      digits_of.simps digit_char_def bytes_of_def)

section \<open>stripcmd: runs over the parts of a stream\<close>

lemma cmd_body_copies:
  "cmd_body q w v ch = Continue v' \<or> cmd_body q w v ch = Return r v' \<Longrightarrow>
   cmd_outfile v' = cmd_outfile v @ (if cstate v \<noteq> EXTRA_BYTES \<and> w then [ch] else [])"
  by (cases "cstate v")
     (auto simp: cmd_body_def cmd_switch_def case_CMD_HDR_def case_FNAMEREC_NAME_def
        case_COMMREC_STRING_def printf_out_def printf_err_def Let_def
        split: if_splits option.splits)

lemma extra_bytes_step:
  "cstate v = EXTRA_BYTES \<Longrightarrow>
   cmd_body q w v ch = Continue (v\<lparr>extra_bytes := extra_bytes v + 1\<rparr>)"
  by (simp add: cmd_body_def cmd_switch_def)

lemma feed_extra:
  "cstate v = EXTRA_BYTES \<Longrightarrow>
   feed (cmd_body q w) v xs = Some (v\<lparr>extra_bytes := extra_bytes v + of_nat (length xs)\<rparr>)"
proof (induction xs arbitrary: v)
  case Nil
  then show ?case by simp
next
  case (Cons x xs)
  then show ?case
    by (simp add: extra_bytes_step add.assoc add.commute)
qed


lemma of_nat_32_neq_0: "0 < n \<Longrightarrow> n < 4294967296 \<Longrightarrow> (of_nat n :: 32 word) \<noteq> 0"
  by (simp add: word_unat_eq_iff unat_of_nat)

lemma skip_step:
  "cstate v = SKIP_BYTES \<Longrightarrow>
   cmd_body q w v x =
     Continue (v\<lparr>cmd_outfile := cmd_outfile v @ (if w then [x] else []),
                 chskip := chskip v - 1,
                 cstate := (if chskip v - 1 = 0 then CMD_HDR else SKIP_BYTES)\<rparr>)"
  by (simp add: cmd_body_def cmd_switch_def Let_def)

lemma feed_skip:
  "cstate v = SKIP_BYTES \<Longrightarrow> chskip v = of_nat m \<Longrightarrow> m < 4294967296 \<Longrightarrow> length p \<le> m \<Longrightarrow>
   0 < m \<Longrightarrow>
   feed (cmd_body q w) v p =
     Some (v\<lparr>cmd_outfile := cmd_outfile v @ (if w then p else []),
             chskip := of_nat (m - length p),
             cstate := (if length p = m then CMD_HDR else SKIP_BYTES)\<rparr>)"
proof (induction p arbitrary: v m)
  case Nil
  then show ?case by simp
next
  case (Cons x xs)
  obtain k where m: "m = Suc k" using Cons.prems(4) by (cases m) auto
  have dec: "chskip v - 1 = of_nat k"
    using Cons.prems(2) m by simp
  show ?case
  proof (cases "k = 0")
    case True
    with Cons.prems m dec have "xs = []" by simp
    with True m dec Cons.prems(1) show ?thesis
      by (simp add: skip_step)
  next
    case False
    with Cons.prems(3) m have nz: "(of_nat k :: 32 word) \<noteq> 0"
      by (intro of_nat_32_neq_0) auto
    let ?v1 = "v\<lparr>cmd_outfile := cmd_outfile v @ (if w then [x] else []),
                 chskip := of_nat k, cstate := SKIP_BYTES\<rparr>"
    have step: "cmd_body q w v x = Continue ?v1"
      using Cons.prems(1) dec nz by (simp add: skip_step)
    have "feed (cmd_body q w) ?v1 xs =
        Some (?v1\<lparr>cmd_outfile := cmd_outfile ?v1 @ (if w then xs else []),
                chskip := of_nat (k - length xs),
                cstate := (if length xs = k then CMD_HDR else SKIP_BYTES)\<rparr>)"
      using Cons.prems m False by (intro Cons.IH) auto
    with step m show ?thesis by simp
  qed
qed

lemma blk_len_range: "1 \<le> BLK_LEN (uint (n :: byte)) \<and> BLK_LEN (uint n) \<le> 256"
proof -
  have "0 \<le> uint n" "uint n < 256"
    using uint_lt2p [of n] by simp_all
  then show ?thesis by (simp add: BLK_LEN_def)
qed

lemma ucast_small: "m \<le> 65535 \<Longrightarrow> (ucast (of_nat m :: 16 word) :: 32 word) = of_nat m"
proof -
  assume m: "m \<le> 65535"
  then have "unat (of_nat m :: 16 word) = m" by (simp add: unat_of_nat)
  moreover from m have "unat (of_nat m :: 32 word) = m" by (simp add: unat_of_nat)
  moreover have "unat (of_nat m :: 16 word) < 2 ^ 32"
    using m calculation(1) by simp
  ultimately show ?thesis
    by (simp add: word_unat_eq_iff unsigned_ucast_eq take_bit_nat_eq_self)
qed

lemma chskip_of_blk_len:
  assumes "int m = BLK_LEN (uint (n :: byte))"
  shows "(ucast (word_of_int (BLK_LEN (uint n)) :: 16 word) :: 32 word) = of_nat m"
    and "0 < m" and "m \<le> 256"
proof -
  from assms blk_len_range [of n] show m: "0 < m" "m \<le> 256" by auto
  have "(word_of_int (BLK_LEN (uint n)) :: 16 word) = of_nat m"
    using assms by (metis word_of_int_nat of_nat_0_le_iff nat_int)
  with m show "(ucast (word_of_int (BLK_LEN (uint n)) :: 16 word) :: 32 word) = of_nat m"
    by (simp add: ucast_small)
qed


lemma feed_load_header:
  "cstate v = CMD_HDR \<Longrightarrow>
   feed (cmd_body q w) v [LOADBLK, n, lo, hi] =
     Some (v\<lparr>cmd_outfile := cmd_outfile v @ (if w then [LOADBLK, n, lo, hi] else []),
             chskip := ucast (word_of_int (BLK_LEN (uint n)) :: 16 word),
             load_addr := word_of_int (uint (word_of_int (uint lo) :: 16 word) OR push_bit 8 (uint hi)),
             cmd_stdout := cmd_stdout v @
               (if q = 0
                then bytes_of ''Load address == 0x'' @
                     fmt_x 4 (unat (word_of_int (uint (word_of_int (uint lo) :: 16 word) OR
                                      push_bit 8 (uint hi)) :: 16 word)) @
                     bytes_of '' (len == 0x'' @
                     fmt_x 2 (unat (ucast (word_of_int (BLK_LEN (uint n)) :: 16 word) :: 32 word)) @
                     bytes_of '')'' @ [NL]
                else []),
             cstate := SKIP_BYTES\<rparr>)"
  by (simp add: cmd_body_def cmd_switch_def case_CMD_HDR_def printf_out_def Let_def)

lemma feed_load_block:
  assumes "cstate v = CMD_HDR" and "length p \<le> nat (BLK_LEN (uint n))"
  shows "\<exists>v'. feed (cmd_body q w) v ([LOADBLK, n, lo, hi] @ p) = Some v' \<and>
           cstate v' = (if length p = nat (BLK_LEN (uint n)) then CMD_HDR else SKIP_BYTES) \<and>
           chskip v' = of_nat (nat (BLK_LEN (uint n)) - length p) \<and>
           cmd_outfile v' = cmd_outfile v @ (if w then [LOADBLK, n, lo, hi] @ p else []) \<and>
           fname v' = fname v \<and> comment v' = comment v \<and> cmd_stderr v' = cmd_stderr v \<and>
           extra_bytes v' = extra_bytes v \<and>
           (\<exists>out. cmd_stdout v' = cmd_stdout v @ out)"
proof -
  define m where "m = nat (BLK_LEN (uint n))"
  have m: "int m = BLK_LEN (uint n)"
    using blk_len_range [of n] by (simp add: m_def)
  note facts = chskip_of_blk_len [OF m]
  obtain v1 where h: "feed (cmd_body q w) v [LOADBLK, n, lo, hi] = Some v1"
    and v1: "cstate v1 = SKIP_BYTES" "chskip v1 = of_nat m"
      "cmd_outfile v1 = cmd_outfile v @ (if w then [LOADBLK, n, lo, hi] else [])"
      "fname v1 = fname v" "comment v1 = comment v" "cmd_stderr v1 = cmd_stderr v"
      "extra_bytes v1 = extra_bytes v" "\<exists>out. cmd_stdout v1 = cmd_stdout v @ out"
    using feed_load_header [OF assms(1), of q w n lo hi] facts(1) by simp
  have skip: "feed (cmd_body q w) v1 p =
      Some (v1\<lparr>cmd_outfile := cmd_outfile v1 @ (if w then p else []),
               chskip := of_nat (m - length p),
               cstate := (if length p = m then CMD_HDR else SKIP_BYTES)\<rparr>)"
    using v1(1,2) facts(2,3) assms(2) by (intro feed_skip) (auto simp: m_def)
  have "feed (cmd_body q w) v ([LOADBLK, n, lo, hi] @ p) = feed (cmd_body q w) v1 p"
    unfolding feed_append h by simp
  with skip v1 show ?thesis
    unfolding m_def by auto
qed

lemma takeWhile_stop: "\<not> P y \<Longrightarrow> takeWhile P (xs @ y # ys) = takeWhile P xs"
  by (induction xs) auto

lemma c_string_terminated: "c_string (xs @ 0 # ys) = c_string xs"
  by (simp add: c_string_def takeWhile_stop)

lemma name_step:
  "cstate v = FNAMEREC_NAME \<Longrightarrow> unat (fname_idx v) < length (fname v) \<Longrightarrow>
   fname_idx v + 1 \<noteq> ucast (fname_len v) \<Longrightarrow>
   cmd_body q w v x =
     Continue (v\<lparr>cmd_outfile := cmd_outfile v @ (if w then [x] else []),
                 fname := (fname v)[unat (fname_idx v) := x],
                 fname_idx := fname_idx v + 1\<rparr>)"
  by (simp add: cmd_body_def cmd_switch_def case_FNAMEREC_NAME_def array_store_def Let_def)

lemma name_last_step:
  "cstate v = FNAMEREC_NAME \<Longrightarrow> unat (fname_idx v) < length (fname v) \<Longrightarrow>
   fname_idx v + 1 = ucast (fname_len v) \<Longrightarrow> unat (fname_idx v + 1) < length (fname v) \<Longrightarrow>
   cmd_body q w v x =
     Continue (v\<lparr>cmd_outfile := cmd_outfile v @ (if w then [x] else []),
                 fname := (fname v)[unat (fname_idx v) := x, unat (fname_idx v + 1) := 0],
                 fname_idx := fname_idx v + 1,
                 cmd_stdout := cmd_stdout v @
                   (if q = 0
                    then bytes_of ''Filename = '' @ [DQUOTE] @
                         c_string ((fname v)[unat (fname_idx v) := x, unat (fname_idx v + 1) := 0]) @
                         [DQUOTE, NL]
                    else []),
                 cstate := CMD_HDR\<rparr>)"
  by (simp add: cmd_body_def cmd_switch_def case_FNAMEREC_NAME_def array_store_def Let_def
      printf_out_def)


lemma two_stores:
  "Suc i < length a \<Longrightarrow> a[i := x, Suc i := y] = take i a @ x # y # drop (Suc (Suc i)) a"
  by (induction a arbitrary: i) (auto split: nat.splits simp: neq_Nil_conv)

lemma take_Suc_store: "i < length a \<Longrightarrow> take (Suc i) (a[i := x]) = take i a @ [x]"
  by (simp add: take_Suc_conv_app_nth)

lemma of_nat_32_inject:
  "a < 4294967296 \<Longrightarrow> b < 4294967296 \<Longrightarrow> (of_nat a :: 32 word) = of_nat b \<longleftrightarrow> a = b"
  by (simp add: word_unat_eq_iff unat_of_nat)

lemma feed_name:
  assumes "cstate v = FNAMEREC_NAME" and "fname_idx v = of_nat i"
    and "unat (fname_len v) = i + length xs" and "xs \<noteq> []" and "length (fname v) = 256"
  shows "feed (cmd_body q w) v xs =
     Some (v\<lparr>cmd_outfile := cmd_outfile v @ (if w then xs else []),
             fname := take i (fname v) @ xs @ 0 # drop (Suc (i + length xs)) (fname v),
             fname_idx := of_nat (i + length xs),
             cmd_stdout := cmd_stdout v @
               (if q = 0
                then bytes_of ''Filename = '' @ [DQUOTE] @ c_string (take i (fname v) @ xs) @
                     [DQUOTE, NL]
                else []),
             cstate := CMD_HDR\<rparr>)"
  using assms
proof (induction xs arbitrary: v i)
  case Nil
  then show ?case by simp
next
  case (Cons x xs)
  have "unat (fname_len v) < 256"
    using unsigned_less [of "fname_len v", where ?'a = nat] by simp
  with Cons.prems(3) have small: "i + Suc (length xs) < 256" by simp
  have idx: "unat (fname_idx v) = i"
    using Cons.prems(2) small by (simp add: unat_of_nat)
  have idx1: "fname_idx v + 1 = of_nat (Suc i)"
    using Cons.prems(2) by simp
  have len: "(ucast (fname_len v) :: 32 word) = of_nat (i + Suc (length xs))"
    using Cons.prems(3) of_nat_unat [of "fname_len v", where ?'a = "32 word"] by simp
  show ?case
  proof (cases "xs = []")
    case True
    have last: "fname_idx v + 1 = ucast (fname_len v)"
      using idx1 len True by simp
    have "unat (of_nat (Suc i) :: 32 word) = Suc i"
      using small by (simp add: unat_of_nat del: of_nat_Suc)
    then have idx': "unat (fname_idx v + 1) = Suc i"
      by (simp only: idx1)
    have arr: "(fname v)[unat (fname_idx v) := x, unat (fname_idx v + 1) := 0] =
        take i (fname v) @ x # 0 # drop (Suc (Suc i)) (fname v)"
      unfolding idx idx' using small Cons.prems(5) by (intro two_stores) simp
    have str: "c_string (take i (fname v) @ x # 0 # drop (Suc (Suc i)) (fname v)) =
        c_string (take i (fname v) @ [x])"
      using c_string_terminated [of "take i (fname v) @ [x]"] by simp
    have "unat (fname_idx v) < length (fname v)" "unat (fname_idx v + 1) < length (fname v)"
      using idx idx' small Cons.prems(5) by simp_all
    note name_last_step [OF Cons.prems(1) this(1) last this(2), of q w x, unfolded arr str]
    then show ?thesis
      using True idx1 by simp
  next
    case False
    have "(of_nat (Suc i) :: 32 word) = of_nat (i + Suc (length xs)) \<longleftrightarrow>
        Suc i = i + Suc (length xs)"
      using small by (intro of_nat_32_inject) simp_all
    then have "(of_nat (Suc i) :: 32 word) \<noteq> of_nat (i + Suc (length xs))"
      using False by simp
    then have more: "fname_idx v + 1 \<noteq> ucast (fname_len v)"
      using idx1 len by simp
    let ?v1 = "v\<lparr>cmd_outfile := cmd_outfile v @ (if w then [x] else []),
                 fname := (fname v)[i := x], fname_idx := of_nat (Suc i)\<rparr>"
    have step: "cmd_body q w v x = Continue ?v1"
      using name_step [OF Cons.prems(1) _ more, of q w x] idx small Cons.prems(5) idx1 by simp
    have "feed (cmd_body q w) ?v1 xs =
       Some (?v1\<lparr>cmd_outfile := cmd_outfile ?v1 @ (if w then xs else []),
             fname := take (Suc i) (fname ?v1) @ xs @ 0 # drop (Suc (Suc i + length xs)) (fname ?v1),
             fname_idx := of_nat (Suc i + length xs),
             cmd_stdout := cmd_stdout ?v1 @
               (if q = 0
                then bytes_of ''Filename = '' @ [DQUOTE] @ c_string (take (Suc i) (fname ?v1) @ xs) @
                     [DQUOTE, NL]
                else []),
             cstate := CMD_HDR\<rparr>)"
      using Cons.prems False by (intro Cons.IH) auto
    then show ?thesis
      using step small Cons.prems(5) by (simp add: take_Suc_store)
  qed
qed

lemma comment_step:
  "cstate v = COMMREC_STRING \<Longrightarrow> unat (comment_idx v) < length (comment v) \<Longrightarrow>
   comment_idx v + 1 \<noteq> ucast (comment_len v) \<Longrightarrow>
   cmd_body q w v x =
     Continue (v\<lparr>cmd_outfile := cmd_outfile v @ (if w then [x] else []),
                 comment := (comment v)[unat (comment_idx v) := x],
                 comment_idx := comment_idx v + 1\<rparr>)"
  by (simp add: cmd_body_def cmd_switch_def case_COMMREC_STRING_def array_store_def Let_def)

lemma comment_last_step:
  "cstate v = COMMREC_STRING \<Longrightarrow> unat (comment_idx v) < length (comment v) \<Longrightarrow>
   comment_idx v + 1 = ucast (comment_len v) \<Longrightarrow> unat (comment_idx v + 1) < length (comment v) \<Longrightarrow>
   cmd_body q w v x =
     Continue (v\<lparr>cmd_outfile := cmd_outfile v @ (if w then [x] else []),
                 comment := (comment v)[unat (comment_idx v) := x, unat (comment_idx v + 1) := 0],
                 comment_idx := comment_idx v + 1,
                 cmd_stdout := cmd_stdout v @
                   (if q = 0
                    then bytes_of ''Comment = '' @ [DQUOTE] @
                         c_string ((comment v)[unat (comment_idx v) := x, unat (comment_idx v + 1) := 0]) @
                         [DQUOTE, NL]
                    else []),
                 cstate := CMD_HDR\<rparr>)"
  by (simp add: cmd_body_def cmd_switch_def case_COMMREC_STRING_def array_store_def Let_def
      printf_out_def)


lemma feed_comment:
  assumes "cstate v = COMMREC_STRING" and "comment_idx v = of_nat i"
    and "unat (comment_len v) = i + length xs" and "xs \<noteq> []" and "length (comment v) = 256"
  shows "feed (cmd_body q w) v xs =
     Some (v\<lparr>cmd_outfile := cmd_outfile v @ (if w then xs else []),
             comment := take i (comment v) @ xs @ 0 # drop (Suc (i + length xs)) (comment v),
             comment_idx := of_nat (i + length xs),
             cmd_stdout := cmd_stdout v @
               (if q = 0
                then bytes_of ''Comment = '' @ [DQUOTE] @ c_string (take i (comment v) @ xs) @
                     [DQUOTE, NL]
                else []),
             cstate := CMD_HDR\<rparr>)"
  using assms
proof (induction xs arbitrary: v i)
  case Nil
  then show ?case by simp
next
  case (Cons x xs)
  have "unat (comment_len v) < 256"
    using unsigned_less [of "comment_len v", where ?'a = nat] by simp
  with Cons.prems(3) have small: "i + Suc (length xs) < 256" by simp
  have idx: "unat (comment_idx v) = i"
    using Cons.prems(2) small by (simp add: unat_of_nat)
  have idx1: "comment_idx v + 1 = of_nat (Suc i)"
    using Cons.prems(2) by simp
  have len: "(ucast (comment_len v) :: 32 word) = of_nat (i + Suc (length xs))"
    using Cons.prems(3) of_nat_unat [of "comment_len v", where ?'a = "32 word"] by simp
  show ?case
  proof (cases "xs = []")
    case True
    have last: "comment_idx v + 1 = ucast (comment_len v)"
      using idx1 len True by simp
    have "unat (of_nat (Suc i) :: 32 word) = Suc i"
      using small by (simp add: unat_of_nat del: of_nat_Suc)
    then have idx': "unat (comment_idx v + 1) = Suc i"
      by (simp only: idx1)
    have arr: "(comment v)[unat (comment_idx v) := x, unat (comment_idx v + 1) := 0] =
        take i (comment v) @ x # 0 # drop (Suc (Suc i)) (comment v)"
      unfolding idx idx' using small Cons.prems(5) by (intro two_stores) simp
    have str: "c_string (take i (comment v) @ x # 0 # drop (Suc (Suc i)) (comment v)) =
        c_string (take i (comment v) @ [x])"
      using c_string_terminated [of "take i (comment v) @ [x]"] by simp
    have "unat (comment_idx v) < length (comment v)" "unat (comment_idx v + 1) < length (comment v)"
      using idx idx' small Cons.prems(5) by simp_all
    note comment_last_step [OF Cons.prems(1) this(1) last this(2), of q w x, unfolded arr str]
    then show ?thesis
      using True idx1 by simp
  next
    case False
    have "(of_nat (Suc i) :: 32 word) = of_nat (i + Suc (length xs)) \<longleftrightarrow>
        Suc i = i + Suc (length xs)"
      using small by (intro of_nat_32_inject) simp_all
    then have "(of_nat (Suc i) :: 32 word) \<noteq> of_nat (i + Suc (length xs))"
      using False by simp
    then have more: "comment_idx v + 1 \<noteq> ucast (comment_len v)"
      using idx1 len by simp
    let ?v1 = "v\<lparr>cmd_outfile := cmd_outfile v @ (if w then [x] else []),
                 comment := (comment v)[i := x], comment_idx := of_nat (Suc i)\<rparr>"
    have step: "cmd_body q w v x = Continue ?v1"
      using comment_step [OF Cons.prems(1) _ more, of q w x] idx small Cons.prems(5) idx1 by simp
    have "feed (cmd_body q w) ?v1 xs =
       Some (?v1\<lparr>cmd_outfile := cmd_outfile ?v1 @ (if w then xs else []),
             comment := take (Suc i) (comment ?v1) @ xs @ 0 # drop (Suc (Suc i + length xs)) (comment ?v1),
             comment_idx := of_nat (Suc i + length xs),
             cmd_stdout := cmd_stdout ?v1 @
               (if q = 0
                then bytes_of ''Comment = '' @ [DQUOTE] @ c_string (take (Suc i) (comment ?v1) @ xs) @
                     [DQUOTE, NL]
                else []),
             cstate := CMD_HDR\<rparr>)"
      using Cons.prems False by (intro Cons.IH) auto
    then show ?thesis
      using step small Cons.prems(5) by (simp add: take_Suc_store)
  qed
qed


lemma byte_of_length: "n \<le> 255 \<Longrightarrow> unat (of_nat n :: byte) = n"
  by (simp add: unat_of_nat)

lemma feed_file_name:
  assumes "cstate v = CMD_HDR" and "name \<noteq> []" and "length name \<le> 255"
    and "length (fname v) = 256"
  shows "\<exists>v'. feed (cmd_body q w) v (record_bytes (File_Name name)) = Some v' \<and>
           cstate v' = CMD_HDR \<and>
           cmd_outfile v' = cmd_outfile v @ (if w then record_bytes (File_Name name) else []) \<and>
           length (fname v') = 256 \<and> comment v' = comment v \<and> cmd_stderr v' = cmd_stderr v \<and>
           extra_bytes v' = extra_bytes v \<and>
           cmd_stdout v' = cmd_stdout v @
             (if q = 0 then bytes_of ''Filename = '' @ [DQUOTE] @ c_string name @ [DQUOTE, NL]
              else [])"
proof -
  let ?L = "of_nat (length name) :: byte"
  let ?v1 = "v\<lparr>cmd_outfile := cmd_outfile v @ (if w then [FNAMEREC, ?L] else []),
               fname_len := ?L, fname_idx := 0, cstate := FNAMEREC_NAME\<rparr>"
  have L: "unat ?L = length name"
    using assms(3) by (rule byte_of_length)
  have h: "feed (cmd_body q w) v [FNAMEREC, ?L] = Some ?v1"
    using assms(1) unsigned_less [of ?L, where ?'a = nat]
    by (simp add: cmd_body_def cmd_switch_def case_CMD_HDR_def Let_def FNAME_SIZE_def
        FNAMEREC_def LOADBLK_def XFERADDR_def)
  have n: "feed (cmd_body q w) ?v1 name =
     Some (?v1\<lparr>cmd_outfile := cmd_outfile ?v1 @ (if w then name else []),
             fname := take 0 (fname ?v1) @ name @ 0 # drop (Suc (0 + length name)) (fname ?v1),
             fname_idx := of_nat (0 + length name),
             cmd_stdout := cmd_stdout ?v1 @
               (if q = 0
                then bytes_of ''Filename = '' @ [DQUOTE] @ c_string (take 0 (fname ?v1) @ name) @
                     [DQUOTE, NL]
                else []),
             cstate := CMD_HDR\<rparr>)"
    using assms L by (intro feed_name) simp_all
  have "feed (cmd_body q w) v (record_bytes (File_Name name)) = feed (cmd_body q w) ?v1 name"
    using feed_append [of "cmd_body q w" v "[FNAMEREC, ?L]" name] h
    by (simp del: feed.simps)
  with n assms show ?thesis
    by (auto simp del: feed.simps)
qed

lemma feed_comment_text:
  assumes "cstate v = CMD_HDR" and "name \<noteq> []" and "length name \<le> 255"
    and "length (comment v) = 256"
  shows "\<exists>v'. feed (cmd_body q w) v (record_bytes (Comment_Text name)) = Some v' \<and>
           cstate v' = CMD_HDR \<and>
           cmd_outfile v' = cmd_outfile v @ (if w then record_bytes (Comment_Text name) else []) \<and>
           length (comment v') = 256 \<and> fname v' = fname v \<and> cmd_stderr v' = cmd_stderr v \<and>
           extra_bytes v' = extra_bytes v \<and>
           cmd_stdout v' = cmd_stdout v @
             (if q = 0 then bytes_of ''Comment = '' @ [DQUOTE] @ c_string name @ [DQUOTE, NL]
              else [])"
proof -
  let ?L = "of_nat (length name) :: byte"
  let ?v1 = "v\<lparr>cmd_outfile := cmd_outfile v @ (if w then [COMMREC, ?L] else []),
               comment_len := ?L, comment_idx := 0, cstate := COMMREC_STRING\<rparr>"
  have L: "unat ?L = length name"
    using assms(3) by (rule byte_of_length)
  have h: "feed (cmd_body q w) v [COMMREC, ?L] = Some ?v1"
    using assms(1) unsigned_less [of ?L, where ?'a = nat]
    by (simp add: cmd_body_def cmd_switch_def case_CMD_HDR_def Let_def COMMENT_SIZE_def
        COMMREC_def LOADBLK_def XFERADDR_def FNAMEREC_def)
  have n: "feed (cmd_body q w) ?v1 name =
     Some (?v1\<lparr>cmd_outfile := cmd_outfile ?v1 @ (if w then name else []),
             comment := take 0 (comment ?v1) @ name @ 0 # drop (Suc (0 + length name)) (comment ?v1),
             comment_idx := of_nat (0 + length name),
             cmd_stdout := cmd_stdout ?v1 @
               (if q = 0
                then bytes_of ''Comment = '' @ [DQUOTE] @ c_string (take 0 (comment ?v1) @ name) @
                     [DQUOTE, NL]
                else []),
             cstate := CMD_HDR\<rparr>)"
    using assms L by (intro feed_comment) simp_all
  have "feed (cmd_body q w) v (record_bytes (Comment_Text name)) = feed (cmd_body q w) ?v1 name"
    using feed_append [of "cmd_body q w" v "[COMMREC, ?L]" name] h
    by (simp del: feed.simps)
  with n assms show ?thesis
    by (auto simp del: feed.simps)
qed


lemma feed_record:
  assumes "cstate v = CMD_HDR" and "well_formed_record r" and "nonempty_record r"
    and "length (fname v) = 256" and "length (comment v) = 256"
  shows "\<exists>v'. feed (cmd_body q w) v (record_bytes r) = Some v' \<and>
           cstate v' = CMD_HDR \<and>
           cmd_outfile v' = cmd_outfile v @ (if w then record_bytes r else []) \<and>
           length (fname v') = 256 \<and> length (comment v') = 256 \<and>
           cmd_stderr v' = cmd_stderr v \<and> extra_bytes v' = extra_bytes v \<and>
           (\<exists>out. cmd_stdout v' = cmd_stdout v @ out)"
proof (cases r)
  case (Load_Block n lo hi payload)
  with assms(2) have "length payload = nat (BLK_LEN (uint n))" by simp
  with feed_load_block [OF assms(1), of payload n q w lo hi] Load_Block assms(4,5)
  show ?thesis by (auto simp del: feed.simps)
next
  case (File_Name name)
  with assms feed_file_name [OF assms(1), of name q w] show ?thesis
    by (auto simp del: feed.simps)
next
  case (Comment_Text str)
  with assms feed_comment_text [OF assms(1), of str q w] show ?thesis
    by (auto simp del: feed.simps)
qed

lemma feed_records:
  assumes "list_all well_formed_record recs" and "list_all nonempty_record recs"
    and "cstate v = CMD_HDR" and "length (fname v) = 256" and "length (comment v) = 256"
  shows "\<exists>v'. feed (cmd_body q w) v (concat (map record_bytes recs)) = Some v' \<and>
           cstate v' = CMD_HDR \<and>
           cmd_outfile v' = cmd_outfile v @ (if w then concat (map record_bytes recs) else []) \<and>
           length (fname v') = 256 \<and> length (comment v') = 256 \<and>
           cmd_stderr v' = cmd_stderr v \<and> extra_bytes v' = extra_bytes v \<and>
           (\<exists>out. cmd_stdout v' = cmd_stdout v @ out)"
  using assms
proof (induction recs arbitrary: v)
  case Nil
  then show ?case by simp
next
  case (Cons r recs)
  from Cons.prems obtain v1 where one: "feed (cmd_body q w) v (record_bytes r) = Some v1"
    and v1: "cstate v1 = CMD_HDR"
      "cmd_outfile v1 = cmd_outfile v @ (if w then record_bytes r else [])"
      "length (fname v1) = 256" "length (comment v1) = 256"
      "cmd_stderr v1 = cmd_stderr v" "extra_bytes v1 = extra_bytes v"
      "\<exists>out. cmd_stdout v1 = cmd_stdout v @ out"
    using feed_record [of v r q w] by auto
  from Cons.prems have "list_all well_formed_record recs" "list_all nonempty_record recs"
    by simp_all
  from Cons.IH [OF this v1(1,3,4)] obtain v2
    where more: "feed (cmd_body q w) v1 (concat (map record_bytes recs)) = Some v2"
      and v2: "cstate v2 = CMD_HDR"
        "cmd_outfile v2 = cmd_outfile v1 @ (if w then concat (map record_bytes recs) else [])"
        "length (fname v2) = 256" "length (comment v2) = 256"
        "cmd_stderr v2 = cmd_stderr v1" "extra_bytes v2 = extra_bytes v1"
        "\<exists>out. cmd_stdout v2 = cmd_stdout v1 @ out"
    by auto
  have "feed (cmd_body q w) v (concat (map record_bytes (r # recs))) = Some v2"
    using one more by (simp add: feed_append)
  with v1 v2 show ?case
    by (auto simp del: feed.simps)
qed

lemma feed_xfer:
  assumes "cstate v = CMD_HDR"
  shows "\<exists>v'. feed (cmd_body q w) v (xfer_bytes lo hi) = Some v' \<and>
           cstate v' = EXTRA_BYTES \<and> extra_bytes v' = 0 \<and>
           cmd_outfile v' = cmd_outfile v @ (if w then xfer_bytes lo hi else []) \<and>
           cmd_stderr v' = cmd_stderr v \<and>
           (\<exists>out. cmd_stdout v' = cmd_stdout v @ out)"
  using assms
  by (simp add: xfer_bytes_def cmd_body_def cmd_switch_def case_CMD_HDR_def Let_def
      XFERADDR_def LOADBLK_def printf_out_def)

lemma cmd_init_facts:
  "cstate cmd_init = CMD_HDR" "length (fname cmd_init) = 256" "length (comment cmd_init) = 256"
  "cmd_outfile cmd_init = []" "cmd_stdout cmd_init = []" "cmd_stderr cmd_init = []"
  by (simp_all add: cmd_init_def FNAME_SIZE_def COMMENT_SIZE_def)

lemma run_cmd_stream:
  assumes "list_all well_formed_record recs" and "list_all nonempty_record recs"
  shows "\<exists>v. cmd_loop q w cmd_init (cmd_stream recs lo hi extra) = Exhausted v \<and>
           cstate v = EXTRA_BYTES \<and> extra_bytes v = of_nat (length extra) \<and>
           cmd_outfile v = (if w then concat (map record_bytes recs) @ xfer_bytes lo hi else []) \<and>
           cmd_stderr v = []"
proof -
  from feed_records [OF assms cmd_init_facts(1,2,3), of q w] obtain v1
    where r: "feed (cmd_body q w) cmd_init (concat (map record_bytes recs)) = Some v1"
      and v1: "cstate v1 = CMD_HDR"
        "cmd_outfile v1 = (if w then concat (map record_bytes recs) else [])"
        "cmd_stderr v1 = []"
    by (auto simp: cmd_init_facts)
  from feed_xfer [OF v1(1), of q w lo hi] obtain v2
    where x: "feed (cmd_body q w) v1 (xfer_bytes lo hi) = Some v2"
      and v2: "cstate v2 = EXTRA_BYTES" "extra_bytes v2 = 0"
        "cmd_outfile v2 = cmd_outfile v1 @ (if w then xfer_bytes lo hi else [])"
        "cmd_stderr v2 = cmd_stderr v1"
    by auto
  let ?v3 = "v2\<lparr>extra_bytes := extra_bytes v2 + of_nat (length extra)\<rparr>"
  have e: "feed (cmd_body q w) v2 extra = Some ?v3"
    using v2(1) by (rule feed_extra)
  have "feed (cmd_body q w) cmd_init (cmd_stream recs lo hi extra) = Some ?v3"
    using r x e by (simp add: cmd_stream_def feed_append)
  from feed_read_loop [OF this, of "[]"]
  have "cmd_loop q w cmd_init (cmd_stream recs lo hi extra) = Exhausted ?v3"
    by (simp add: cmd_loop_def)
  with v1 v2 show ?thesis by auto
qed

lemma cmd_loop_Exhausted_summary:
  "cmd_loop q w cmd_init input = Exhausted v \<Longrightarrow>
   cmd_process_file q w input = Returned 0 (cmd_summary q v) []"
  by (simp add: cmd_process_file_def)

lemma unat_of_nat_32: "n < 4294967296 \<Longrightarrow> unat (of_nat n :: 32 word) = n"
  by (simp add: unat_of_nat)

lemma summary_with_extra:
  assumes "extra_bytes v = of_nat n" and "0 < n" and "n < 4294967296" and "q < 2"
  shows "cmd_stdout (cmd_summary q v) = cmd_stdout v @ found_extraneous n @ looks_good"
    and "cmd_outfile (cmd_summary q v) = cmd_outfile v"
  using assms of_nat_32_neq_0 [of n] unat_of_nat_32 [of n]
  by (simp_all add: cmd_summary_def printf_out_def)

lemma summary_outfile: "cmd_outfile (cmd_summary q v) = cmd_outfile v"
  by (simp add: cmd_summary_def printf_out_def)

lemma feed_xfer_quiet:
  assumes "cstate v = CMD_HDR" and "q \<noteq> 0"
  shows "\<exists>v'. feed (cmd_body q w) v (xfer_bytes lo hi) = Some v' \<and>
           cstate v' = EXTRA_BYTES \<and> extra_bytes v' = 0 \<and>
           cmd_outfile v' = cmd_outfile v @ (if w then xfer_bytes lo hi else []) \<and>
           cmd_stderr v' = cmd_stderr v \<and> cmd_stdout v' = cmd_stdout v"
  using assms
  by (simp add: xfer_bytes_def cmd_body_def cmd_switch_def case_CMD_HDR_def Let_def
      XFERADDR_def LOADBLK_def printf_out_def)

lemma quiet_xfer_then_extra:
  assumes "q \<noteq> 0"
  shows "\<exists>v. cmd_loop q w cmd_init (cmd_stream [] lo hi extra) = Exhausted v \<and>
           extra_bytes v = of_nat (length extra) \<and> cmd_stdout v = [] \<and>
           cmd_outfile v = (if w then xfer_bytes lo hi else [])"
proof -
  from feed_xfer_quiet [OF cmd_init_facts(1) assms, of w lo hi] obtain v2
    where x: "feed (cmd_body q w) cmd_init (xfer_bytes lo hi) = Some v2"
      and v2: "cstate v2 = EXTRA_BYTES" "extra_bytes v2 = 0"
        "cmd_outfile v2 = (if w then xfer_bytes lo hi else [])" "cmd_stdout v2 = []"
    by (auto simp: cmd_init_facts)
  let ?v3 = "v2\<lparr>extra_bytes := extra_bytes v2 + of_nat (length extra)\<rparr>"
  have e: "feed (cmd_body q w) v2 extra = Some ?v3"
    using v2(1) by (rule feed_extra)
  have "feed (cmd_body q w) cmd_init (cmd_stream [] lo hi extra) = Some ?v3"
    using x e by (simp add: cmd_stream_def feed_append)
  from feed_read_loop [OF this, of "[]"]
  have "cmd_loop q w cmd_init (cmd_stream [] lo hi extra) = Exhausted ?v3"
    by (simp add: cmd_loop_def)
  with v2 show ?thesis by auto
qed

text \<open>
  A name or comment record whose length byte is 0: the index is compared with the length
  only after it has been incremented, so the comparison never succeeds inside the array.
\<close>

lemma name_zero_step:
  assumes "cstate v = FNAMEREC_NAME" and "fname_len v = 0" and "fname_idx v = of_nat i"
    and "i < 256" and "length (fname v) = 256"
  shows "cmd_body q w v x =
     Continue (v\<lparr>cmd_outfile := cmd_outfile v @ (if w then [x] else []),
                 fname := (fname v)[i := x], fname_idx := of_nat (Suc i)\<rparr>)"
proof -
  have idx: "unat (fname_idx v) = i"
    using assms(3,4) by (simp add: unat_of_nat)
  have "(of_nat (Suc i) :: 32 word) \<noteq> 0"
    using assms(4) by (intro of_nat_32_neq_0) simp_all
  then have more: "fname_idx v + 1 \<noteq> ucast (fname_len v)"
    using assms(2,3) by (simp add: add.commute)
  from name_step [OF assms(1) _ more, of q w x] idx assms(3,4,5) show ?thesis
    by simp
qed

lemma feed_name_zero:
  assumes "cstate v = FNAMEREC_NAME" and "fname_len v = 0" and "fname_idx v = of_nat i"
    and "i + length xs \<le> 256" and "length (fname v) = 256"
  shows "\<exists>v'. feed (cmd_body q w) v xs = Some v' \<and> cstate v' = FNAMEREC_NAME \<and>
           fname_len v' = 0 \<and> fname_idx v' = of_nat (i + length xs) \<and>
           length (fname v') = 256 \<and>
           cmd_outfile v' = cmd_outfile v @ (if w then xs else []) \<and>
           cmd_stdout v' = cmd_stdout v \<and> cmd_stderr v' = cmd_stderr v \<and>
           extra_bytes v' = extra_bytes v"
  using assms
proof (induction xs arbitrary: v i)
  case Nil
  then show ?case by simp
next
  case (Cons x xs)
  let ?v1 = "v\<lparr>cmd_outfile := cmd_outfile v @ (if w then [x] else []),
               fname := (fname v)[i := x], fname_idx := of_nat (Suc i)\<rparr>"
  have step: "cmd_body q w v x = Continue ?v1"
    using Cons.prems by (intro name_zero_step) simp_all
  have "\<exists>v'. feed (cmd_body q w) ?v1 xs = Some v' \<and> cstate v' = FNAMEREC_NAME \<and>
           fname_len v' = 0 \<and> fname_idx v' = of_nat (Suc i + length xs) \<and>
           length (fname v') = 256 \<and>
           cmd_outfile v' = cmd_outfile ?v1 @ (if w then xs else []) \<and>
           cmd_stdout v' = cmd_stdout ?v1 \<and> cmd_stderr v' = cmd_stderr ?v1 \<and>
           extra_bytes v' = extra_bytes ?v1"
    using Cons.prems by (intro Cons.IH) simp_all
  with step show ?case by auto
qed

lemma name_zero_overflow:
  assumes "cstate v = FNAMEREC_NAME" and "fname_idx v = 256" and "length (fname v) = 256"
  shows "cmd_body q w v x = Undefined"
  using assms
  by (simp add: cmd_body_def cmd_switch_def case_FNAMEREC_NAME_def array_store_def)

lemma name_header_zero:
  "feed (cmd_body q w) cmd_init [FNAMEREC, 0] =
     Some (cmd_init\<lparr>cmd_outfile := (if w then [FNAMEREC, 0] else []),
             fname_len := 0, fname_idx := 0, cstate := FNAMEREC_NAME\<rparr>)"
  by (simp add: cmd_body_def cmd_switch_def case_CMD_HDR_def Let_def FNAME_SIZE_def
      FNAMEREC_def LOADBLK_def XFERADDR_def cmd_init_def)

lemma zero_name_swallows:
  assumes "length xs \<le> 256"
  shows "\<exists>v. cmd_loop q w cmd_init (FNAMEREC # 0 # xs) = Exhausted v \<and>
           cstate v = FNAMEREC_NAME \<and> fname_idx v = of_nat (length xs) \<and>
           cmd_outfile v = (if w then FNAMEREC # 0 # xs else []) \<and>
           cmd_stdout v = [] \<and> extra_bytes v = 0"
proof -
  let ?v1 = "cmd_init\<lparr>cmd_outfile := (if w then [FNAMEREC, 0] else []),
             fname_len := 0, fname_idx := 0, cstate := FNAMEREC_NAME\<rparr>"
  have "\<exists>v'. feed (cmd_body q w) ?v1 xs = Some v' \<and> cstate v' = FNAMEREC_NAME \<and>
           fname_len v' = 0 \<and> fname_idx v' = of_nat (0 + length xs) \<and>
           length (fname v') = 256 \<and>
           cmd_outfile v' = cmd_outfile ?v1 @ (if w then xs else []) \<and>
           cmd_stdout v' = cmd_stdout ?v1 \<and> cmd_stderr v' = cmd_stderr ?v1 \<and>
           extra_bytes v' = extra_bytes ?v1"
    using assms by (intro feed_name_zero) (simp_all add: cmd_init_facts)
  then obtain v' where f: "feed (cmd_body q w) ?v1 xs = Some v'"
    and v': "cstate v' = FNAMEREC_NAME" "fname_idx v' = of_nat (length xs)"
      "cmd_outfile v' = (if w then FNAMEREC # 0 # xs else [])"
      "cmd_stdout v' = []" "extra_bytes v' = 0"
    by (auto simp: cmd_init_facts) (simp_all add: cmd_init_def)
  have "feed (cmd_body q w) cmd_init ([FNAMEREC, 0] @ xs) = Some v'"
    unfolding feed_append name_header_zero using f by simp
  from feed_read_loop [OF this, of "[]"] v' show ?thesis
    by (auto simp: cmd_loop_def)
qed

lemma zero_name_overflows:
  assumes "length xs = 256"
  shows "cmd_loop q w cmd_init (FNAMEREC # 0 # xs @ x # rest) = Crashed"
proof -
  let ?v1 = "cmd_init\<lparr>cmd_outfile := (if w then [FNAMEREC, 0] else []),
             fname_len := 0, fname_idx := 0, cstate := FNAMEREC_NAME\<rparr>"
  have "\<exists>v'. feed (cmd_body q w) ?v1 xs = Some v' \<and> cstate v' = FNAMEREC_NAME \<and>
           fname_len v' = 0 \<and> fname_idx v' = of_nat (0 + length xs) \<and>
           length (fname v') = 256 \<and>
           cmd_outfile v' = cmd_outfile ?v1 @ (if w then xs else []) \<and>
           cmd_stdout v' = cmd_stdout ?v1 \<and> cmd_stderr v' = cmd_stderr ?v1 \<and>
           extra_bytes v' = extra_bytes ?v1"
    using assms by (intro feed_name_zero) (simp_all add: cmd_init_facts)
  then obtain v' where f: "feed (cmd_body q w) ?v1 xs = Some v'"
    and v': "cstate v' = FNAMEREC_NAME" "fname_idx v' = 256" "length (fname v') = 256"
    using assms by auto
  have "feed (cmd_body q w) cmd_init ([FNAMEREC, 0] @ xs) = Some v'"
    unfolding feed_append name_header_zero using f by simp
  from feed_read_loop [OF this, of "x # rest"] name_zero_overflow [OF v', of q w x]
  show ?thesis
    by (simp add: cmd_loop_def)
qed

lemma comment_zero_step:
  assumes "cstate v = COMMREC_STRING" and "comment_len v = 0" and "comment_idx v = of_nat i"
    and "i < 256" and "length (comment v) = 256"
  shows "cmd_body q w v x =
     Continue (v\<lparr>cmd_outfile := cmd_outfile v @ (if w then [x] else []),
                 comment := (comment v)[i := x], comment_idx := of_nat (Suc i)\<rparr>)"
proof -
  have idx: "unat (comment_idx v) = i"
    using assms(3,4) by (simp add: unat_of_nat)
  have "(of_nat (Suc i) :: 32 word) \<noteq> 0"
    using assms(4) by (intro of_nat_32_neq_0) simp_all
  then have more: "comment_idx v + 1 \<noteq> ucast (comment_len v)"
    using assms(2,3) by (simp add: add.commute)
  from comment_step [OF assms(1) _ more, of q w x] idx assms(3,4,5) show ?thesis
    by simp
qed

lemma feed_comment_zero:
  assumes "cstate v = COMMREC_STRING" and "comment_len v = 0" and "comment_idx v = of_nat i"
    and "i + length xs \<le> 256" and "length (comment v) = 256"
  shows "\<exists>v'. feed (cmd_body q w) v xs = Some v' \<and> cstate v' = COMMREC_STRING \<and>
           comment_len v' = 0 \<and> comment_idx v' = of_nat (i + length xs) \<and>
           length (comment v') = 256 \<and>
           cmd_outfile v' = cmd_outfile v @ (if w then xs else []) \<and>
           cmd_stdout v' = cmd_stdout v \<and> cmd_stderr v' = cmd_stderr v \<and>
           extra_bytes v' = extra_bytes v"
  using assms
proof (induction xs arbitrary: v i)
  case Nil
  then show ?case by simp
next
  case (Cons x xs)
  let ?v1 = "v\<lparr>cmd_outfile := cmd_outfile v @ (if w then [x] else []),
               comment := (comment v)[i := x], comment_idx := of_nat (Suc i)\<rparr>"
  have step: "cmd_body q w v x = Continue ?v1"
    using Cons.prems by (intro comment_zero_step) simp_all
  have "\<exists>v'. feed (cmd_body q w) ?v1 xs = Some v' \<and> cstate v' = COMMREC_STRING \<and>
           comment_len v' = 0 \<and> comment_idx v' = of_nat (Suc i + length xs) \<and>
           length (comment v') = 256 \<and>
           cmd_outfile v' = cmd_outfile ?v1 @ (if w then xs else []) \<and>
           cmd_stdout v' = cmd_stdout ?v1 \<and> cmd_stderr v' = cmd_stderr ?v1 \<and>
           extra_bytes v' = extra_bytes ?v1"
    using Cons.prems by (intro Cons.IH) simp_all
  with step show ?case by auto
qed

lemma comment_zero_overflow:
  assumes "cstate v = COMMREC_STRING" and "comment_idx v = 256" and "length (comment v) = 256"
  shows "cmd_body q w v x = Undefined"
  using assms
  by (simp add: cmd_body_def cmd_switch_def case_COMMREC_STRING_def array_store_def)

lemma comment_header_zero:
  "feed (cmd_body q w) cmd_init [COMMREC, 0] =
     Some (cmd_init\<lparr>cmd_outfile := (if w then [COMMREC, 0] else []),
             comment_len := 0, comment_idx := 0, cstate := COMMREC_STRING\<rparr>)"
  by (simp add: cmd_body_def cmd_switch_def case_CMD_HDR_def Let_def COMMENT_SIZE_def
      COMMREC_def FNAMEREC_def LOADBLK_def XFERADDR_def COMMREC_def cmd_init_def)

lemma zero_comment_swallows:
  assumes "length xs \<le> 256"
  shows "\<exists>v. cmd_loop q w cmd_init (COMMREC # 0 # xs) = Exhausted v \<and>
           cstate v = COMMREC_STRING \<and> comment_idx v = of_nat (length xs) \<and>
           cmd_outfile v = (if w then COMMREC # 0 # xs else []) \<and>
           cmd_stdout v = [] \<and> extra_bytes v = 0"
proof -
  let ?v1 = "cmd_init\<lparr>cmd_outfile := (if w then [COMMREC, 0] else []),
             comment_len := 0, comment_idx := 0, cstate := COMMREC_STRING\<rparr>"
  have "\<exists>v'. feed (cmd_body q w) ?v1 xs = Some v' \<and> cstate v' = COMMREC_STRING \<and>
           comment_len v' = 0 \<and> comment_idx v' = of_nat (0 + length xs) \<and>
           length (comment v') = 256 \<and>
           cmd_outfile v' = cmd_outfile ?v1 @ (if w then xs else []) \<and>
           cmd_stdout v' = cmd_stdout ?v1 \<and> cmd_stderr v' = cmd_stderr ?v1 \<and>
           extra_bytes v' = extra_bytes ?v1"
    using assms by (intro feed_comment_zero) (simp_all add: cmd_init_facts)
  then obtain v' where f: "feed (cmd_body q w) ?v1 xs = Some v'"
    and v': "cstate v' = COMMREC_STRING" "comment_idx v' = of_nat (length xs)"
      "cmd_outfile v' = (if w then COMMREC # 0 # xs else [])"
      "cmd_stdout v' = []" "extra_bytes v' = 0"
    by (auto simp: cmd_init_facts) (simp_all add: cmd_init_def)
  have "feed (cmd_body q w) cmd_init ([COMMREC, 0] @ xs) = Some v'"
    unfolding feed_append comment_header_zero using f by simp
  from feed_read_loop [OF this, of "[]"] v' show ?thesis
    by (auto simp: cmd_loop_def)
qed

lemma zero_comment_overflows:
  assumes "length xs = 256"
  shows "cmd_loop q w cmd_init (COMMREC # 0 # xs @ x # rest) = Crashed"
proof -
  let ?v1 = "cmd_init\<lparr>cmd_outfile := (if w then [COMMREC, 0] else []),
             comment_len := 0, comment_idx := 0, cstate := COMMREC_STRING\<rparr>"
  have "\<exists>v'. feed (cmd_body q w) ?v1 xs = Some v' \<and> cstate v' = COMMREC_STRING \<and>
           comment_len v' = 0 \<and> comment_idx v' = of_nat (0 + length xs) \<and>
           length (comment v') = 256 \<and>
           cmd_outfile v' = cmd_outfile ?v1 @ (if w then xs else []) \<and>
           cmd_stdout v' = cmd_stdout ?v1 \<and> cmd_stderr v' = cmd_stderr ?v1 \<and>
           extra_bytes v' = extra_bytes ?v1"
    using assms by (intro feed_comment_zero) (simp_all add: cmd_init_facts)
  then obtain v' where f: "feed (cmd_body q w) ?v1 xs = Some v'"
    and v': "cstate v' = COMMREC_STRING" "comment_idx v' = 256" "length (comment v') = 256"
    using assms by auto
  have "feed (cmd_body q w) cmd_init ([COMMREC, 0] @ xs) = Some v'"
    unfolding feed_append comment_header_zero using f by simp
  from feed_read_loop [OF this, of "x # rest"] comment_zero_overflow [OF v', of q w x]
  show ?thesis
    by (simp add: cmd_loop_def)
qed

lemma feed_copies:
  "feed (cmd_body q w) v0 pre = Some vp \<Longrightarrow> cstate vp \<noteq> EXTRA_BYTES \<Longrightarrow>
   cmd_outfile vp = cmd_outfile v0 @ (if w then pre else [])"
proof (induction pre arbitrary: v0)
  case Nil
  then show ?case by simp
next
  case (Cons x xs)
  from Cons.prems(1) obtain v1 where step: "cmd_body q w v0 x = Continue v1"
    and more: "feed (cmd_body q w) v1 xs = Some vp"
    by (auto split: step.splits)
  have live: "cstate v0 \<noteq> EXTRA_BYTES"
  proof
    assume e: "cstate v0 = EXTRA_BYTES"
    with step have "cstate v1 = EXTRA_BYTES"
      by (auto simp: extra_bytes_step)
    from feed_extra [OF this, of q w xs] more Cons.prems(2) this show False
      by auto
  qed
  from cmd_body_copies [of q w v0 x v1] step live
  have "cmd_outfile v1 = cmd_outfile v0 @ (if w then [x] else [])" by simp
  with Cons.IH [OF more Cons.prems(2)] show ?case by simp
qed

lemma loop_return_copies:
  assumes "cmd_loop q w v0 input = Returned r v rest"
  shows "\<exists>consumed. input = consumed @ rest \<and> consumed \<noteq> [] \<and>
           cmd_outfile v = cmd_outfile v0 @ (if w then consumed else [])"
proof -
  from assms obtain pre ch vp where h: "input = pre @ ch # rest"
    "feed (cmd_body q w) v0 pre = Some vp" "cmd_body q w vp ch = Return r v"
    unfolding cmd_loop_def read_loop_Returned by blast
  have live: "cstate vp \<noteq> EXTRA_BYTES"
    using h(3) by (auto simp: extra_bytes_step)
  from feed_copies [OF h(2) live] cmd_body_copies [of q w vp ch v r] h(3) live
  have "cmd_outfile v = cmd_outfile v0 @ (if w then pre @ [ch] else [])" by simp
  with h(1) show ?thesis
    by (intro exI [of _ "pre @ [ch]"]) simp
qed

lemma cmd_body_return_2: "cmd_body q w v ch = Return r v' \<Longrightarrow> r = 2"
  by (cases "cstate v")
     (auto simp: cmd_body_def cmd_switch_def case_CMD_HDR_def case_FNAMEREC_NAME_def
        case_COMMREC_STRING_def Let_def split: if_splits option.splits)

section \<open>stripcmd: the claims\<close>

text \<open>
  Claim C2 (the copy leaves out the trailing bytes).  As stated: every byte read outside
  \<^verbatim>\<open>EXTRA_BYTES\<close> is copied to the output file, no byte read in \<^verbatim>\<open>EXTRA_BYTES\<close> is; hence
  for a well-formed stream with K trailing bytes the copy is the input without those K
  bytes, and the report at quiet level below 2 has the count when K > 0.

  The first part holds for every pass of the loop body.  The second holds for streams
  whose file name and comment records are not empty: the run returns 0, the copy is the
  records and the transfer address record, that is the input without the trailing bytes,
  and when there are between 1 and 4294967295 trailing bytes the report ends with their
  count and the closing line.  Records of length 0 are left out of the statement.
\<close>

theorem copy_strips_trailing_bytes:
  "((cmd_body q True v ch = Continue v' \<or> cmd_body q True v ch = Return r v') \<longrightarrow>
      cmd_outfile v' = cmd_outfile v @ (if cstate v \<noteq> EXTRA_BYTES then [ch] else [])) \<and>
   (list_all well_formed_record recs \<and> list_all nonempty_record recs \<longrightarrow>
      (\<exists>vf. cmd_process_file q True (cmd_stream recs lo hi extra) = Returned 0 vf [] \<and>
            cmd_outfile vf = concat (map record_bytes recs) @ xfer_bytes lo hi \<and>
            cmd_outfile vf @ extra = cmd_stream recs lo hi extra \<and>
            (q < 2 \<and> extra \<noteq> [] \<and> length extra < 4294967296 \<longrightarrow>
               (\<exists>pre. cmd_stdout vf = pre @ found_extraneous (length extra) @ looks_good))))"
proof (intro conjI impI)
  assume "cmd_body q True v ch = Continue v' \<or> cmd_body q True v ch = Return r v'"
  from cmd_body_copies [OF this]
  show "cmd_outfile v' = cmd_outfile v @ (if cstate v \<noteq> EXTRA_BYTES then [ch] else [])"
    by simp
next
  assume "list_all well_formed_record recs \<and> list_all nonempty_record recs"
  then have wf: "list_all well_formed_record recs" "list_all nonempty_record recs"
    by simp_all
  from run_cmd_stream [OF wf, of q True lo hi extra] obtain ve
    where run: "cmd_loop q True cmd_init (cmd_stream recs lo hi extra) = Exhausted ve"
      and ve: "extra_bytes ve = of_nat (length extra)"
        "cmd_outfile ve = concat (map record_bytes recs) @ xfer_bytes lo hi"
    by auto
  let ?vf = "cmd_summary q ve"
  have res: "cmd_process_file q True (cmd_stream recs lo hi extra) = Returned 0 ?vf []"
    using run by (rule cmd_loop_Exhausted_summary)
  have out: "cmd_outfile ?vf = concat (map record_bytes recs) @ xfer_bytes lo hi"
    using ve(2) by (simp add: summary_outfile)
  have whole: "cmd_outfile ?vf @ extra = cmd_stream recs lo hi extra"
    using out by (simp add: cmd_stream_def)
  have report: "q < 2 \<and> extra \<noteq> [] \<and> length extra < 4294967296 \<longrightarrow>
      (\<exists>pre. cmd_stdout ?vf = pre @ found_extraneous (length extra) @ looks_good)"
  proof
    assume "q < 2 \<and> extra \<noteq> [] \<and> length extra < 4294967296"
    then have "cmd_stdout ?vf = cmd_stdout ve @ found_extraneous (length extra) @ looks_good"
      using ve(1) by (intro summary_with_extra) simp_all
    then show "\<exists>pre. cmd_stdout ?vf = pre @ found_extraneous (length extra) @ looks_good"
      by blast
  qed
  from res out whole report
  show "\<exists>vf. cmd_process_file q True (cmd_stream recs lo hi extra) = Returned 0 vf [] \<and>
            cmd_outfile vf = concat (map record_bytes recs) @ xfer_bytes lo hi \<and>
            cmd_outfile vf @ extra = cmd_stream recs lo hi extra \<and>
            (q < 2 \<and> extra \<noteq> [] \<and> length extra < 4294967296 \<longrightarrow>
               (\<exists>pre. cmd_stdout vf = pre @ found_extraneous (length extra) @ looks_good))"
    by blast
qed

theorem copy_strips_trailing_bytes_witness:
  "list_all well_formed_record
     [Load_Block 10 0x00 0x52 [1, 2, 3, 4, 5, 6, 7, 8], File_Name [0x41, 0x42, 0x43]] \<and>
   list_all nonempty_record
     [Load_Block 10 0x00 0x52 [1, 2, 3, 4, 5, 6, 7, 8], File_Name [0x41, 0x42, 0x43]] \<and>
   (\<exists>vf. cmd_process_file 0 True
           [0x01, 10, 0x00, 0x52, 1, 2, 3, 4, 5, 6, 7, 8, 0x05, 3, 0x41, 0x42, 0x43,
            0x02, 0x02, 0x34, 0x12, 9, 9, 9, 9, 9] = Returned 0 vf [] \<and>
         cmd_outfile vf =
           [0x01, 10, 0x00, 0x52, 1, 2, 3, 4, 5, 6, 7, 8, 0x05, 3, 0x41, 0x42, 0x43,
            0x02, 0x02, 0x34, 0x12] \<and>
         (\<exists>pre. cmd_stdout vf =
            pre @ bytes_of ''Found 5 extraneous bytes at end of file.'' @ [0x0a] @
            bytes_of ''CMD file looks good!'' @ [0x0a]))"
proof -
  have five: "Suc (Suc (Suc (Suc (Suc 0)))) = 5" by simp
  have found: "found_extraneous (Suc (Suc (Suc (Suc (Suc 0))))) =
      bytes_of ''Found 5 extraneous bytes at end of file.'' @ [0x0a]"
    unfolding five
    by (simp add: found_extraneous_def fmt_u_def digits_of.simps digit_char_def bytes_of_def
        NL_def)
  from copy_strips_trailing_bytes [of 0 cmd_init 0 cmd_init 0
      "[Load_Block 10 0x00 0x52 [1, 2, 3, 4, 5, 6, 7, 8], File_Name [0x41, 0x42, 0x43]]"
      "0x34" "0x12" "[9, 9, 9, 9, 9]"]
  show ?thesis
    by (simp add: BLK_LEN_def cmd_stream_def xfer_bytes_def LOADBLK_def FNAMEREC_def
        XFERADDR_def found looks_good_def NL_def del: read_loop.simps)
qed

text \<open>
  The claim as stated fails in two places.  A file name record of length 0, which the
  format allows, never ends: the transfer address record and the five bytes after it are
  taken for name bytes and copied, and no count is reported.  And \<^verbatim>\<open>extra_bytes\<close> is a
  32-bit unsigned counter: after 4294967296 trailing bytes it is 0 and no count is
  reported.
\<close>

theorem copy_strips_trailing_bytes_counterexample:
  "list_all well_formed_record [File_Name []] \<and>
   cmd_stream [File_Name []] 0x00 0x00 [9, 9, 9, 9, 9] =
     [0x05, 0x00, 0x02, 0x02, 0x00, 0x00, 9, 9, 9, 9, 9] \<and>
   map_option cmd_outfile
     (final_vars (cmd_process_file 0 True (cmd_stream [File_Name []] 0x00 0x00 [9, 9, 9, 9, 9]))) =
     Some [0x05, 0x00, 0x02, 0x02, 0x00, 0x00, 9, 9, 9, 9, 9] \<and>
   map_option cmd_stdout
     (final_vars (cmd_process_file 0 True (cmd_stream [File_Name []] 0x00 0x00 [9, 9, 9, 9, 9]))) =
     Some (bytes_of ''CMD file looks good!'' @ [0x0a]) \<and>
   list_all well_formed_record [] \<and>
   map_option cmd_outfile
     (final_vars (cmd_process_file 1 True (cmd_stream [] 0x00 0x00 (replicate 4294967296 0x09)))) =
     Some [0x02, 0x02, 0x00, 0x00] \<and>
   map_option cmd_stdout
     (final_vars (cmd_process_file 1 True (cmd_stream [] 0x00 0x00 (replicate 4294967296 0x09)))) =
     Some (bytes_of ''CMD file looks good!'' @ [0x0a])"
proof -
  have s: "cmd_stream [File_Name []] 0x00 0x00 [9, 9, 9, 9, 9] =
      [0x05, 0x00, 0x02, 0x02, 0x00, 0x00, 9, 9, 9, 9, 9]"
    by (simp add: cmd_stream_def xfer_bytes_def FNAMEREC_def XFERADDR_def)
  from zero_name_swallows [of "[0x02, 0x02, 0x00, 0x00, 9, 9, 9, 9, 9]" 0 True] obtain v
    where "cmd_loop 0 True cmd_init [0x05, 0x00, 0x02, 0x02, 0x00, 0x00, 9, 9, 9, 9, 9] =
        Exhausted v"
      "cmd_outfile v = [0x05, 0x00, 0x02, 0x02, 0x00, 0x00, 9, 9, 9, 9, 9]"
      "cmd_stdout v = []" "extra_bytes v = 0"
    by (auto simp: FNAMEREC_def)
  then have a: "cmd_process_file 0 True [0x05, 0x00, 0x02, 0x02, 0x00, 0x00, 9, 9, 9, 9, 9] =
      Returned 0 (cmd_summary 0 v) []"
    "cmd_outfile (cmd_summary 0 v) = [0x05, 0x00, 0x02, 0x02, 0x00, 0x00, 9, 9, 9, 9, 9]"
    "cmd_stdout (cmd_summary 0 v) = bytes_of ''CMD file looks good!'' @ [0x0a]"
    by (simp_all add: cmd_process_file_def cmd_summary_def printf_out_def looks_good_def NL_def)
  have wrap: "(4294967296 :: 32 word) = 0" by simp
  from quiet_xfer_then_extra [of 1 True "0x00" "0x00" "replicate 4294967296 0x09"] obtain u
    where "cmd_loop 1 True cmd_init (cmd_stream [] 0x00 0x00 (replicate 4294967296 0x09)) =
        Exhausted u"
      "extra_bytes u = 0" "cmd_stdout u = []" "cmd_outfile u = [0x02, 0x02, 0x00, 0x00]"
    by (auto simp: wrap xfer_bytes_def XFERADDR_def)
  then have b: "cmd_process_file 1 True (cmd_stream [] 0x00 0x00 (replicate 4294967296 0x09)) =
      Returned 0 (cmd_summary 1 u) []"
    "cmd_outfile (cmd_summary 1 u) = [0x02, 0x02, 0x00, 0x00]"
    "cmd_stdout (cmd_summary 1 u) = bytes_of ''CMD file looks good!'' @ [0x0a]"
    by (simp_all add: cmd_process_file_def cmd_summary_def printf_out_def looks_good_def NL_def)
  from a b show ?thesis
    unfolding s by simp
qed

text \<open>
  Claim C3 (which operand means standard input).  As stated, standard input is read
  exactly when the first operand is absent or is \<^verbatim>\<open>-\<close>, and any other first operand is
  opened.  The condition in \<^verbatim>\<open>process_args\<close> opens the operand only when its first
  character is not \<^verbatim>\<open>-\<close> and its second character is not NUL, so an operand of one
  character, and any operand starting with \<^verbatim>\<open>-\<close>, is never opened: standard input is
  read instead.  An operand of two characters is opened, and on the empty operand the
  condition reads past its end.
\<close>

theorem single_character_operand_reads_stdin:
  "cmd_process_args env [] [''a''] =
     Args_OK \<lparr>Quiet = 0, InputFile = Stdin, OutputFile = None\<rparr> \<and>
   cmd_process_args env [] [''-x''] =
     Args_OK \<lparr>Quiet = 0, InputFile = Stdin, OutputFile = None\<rparr> \<and>
   cmd_process_args env [] [''-''] =
     Args_OK \<lparr>Quiet = 0, InputFile = Stdin, OutputFile = None\<rparr> \<and>
   cmd_process_args env [] [] =
     Args_OK \<lparr>Quiet = 0, InputFile = Stdin, OutputFile = None\<rparr> \<and>
   cmd_process_args \<lparr>fopen_r = (\<lambda>p. True), fopen_w = (\<lambda>p. True)\<rparr> [] [''ab''] =
     Args_OK \<lparr>Quiet = 0, InputFile = Input_File ''ab'', OutputFile = None\<rparr> \<and>
   cmd_process_args env [] [[]] = Args_Undefined"
  by (simp add: cmd_process_args_def opens_input_def c_char_at_def open_output_def)

text \<open>
  Claim C4 (file name and comment records).  As stated, a record with length byte L
  takes exactly L bytes, prints them and returns to the header state, also for L = 0.
  For L from 1 to 255 this is what \<open>feed_file_name\<close> and \<open>feed_comment_text\<close> above
  show.  For L = 0 the code does not return to the header state: after the record
  \<^verbatim>\<open>05 00\<close> the bytes \<^verbatim>\<open>02 02 00 00\<close> of a transfer address record are stored as name
  bytes, the run ends in \<^verbatim>\<open>FNAMEREC_NAME\<close> with index 4 having printed only the closing
  line, and byte 257 after such a record is stored outside the array.  The same holds
  for a comment record.
\<close>

theorem zero_length_name_not_closed:
  "map_option cstate (final_vars (cmd_process_file 0 True [0x05, 0x00, 0x02, 0x02, 0x00, 0x00])) =
     Some FNAMEREC_NAME \<and>
   map_option fname_idx (final_vars (cmd_process_file 0 True [0x05, 0x00, 0x02, 0x02, 0x00, 0x00])) =
     Some 4 \<and>
   map_option cmd_stdout (final_vars (cmd_process_file 0 True [0x05, 0x00, 0x02, 0x02, 0x00, 0x00])) =
     Some (bytes_of ''CMD file looks good!'' @ [0x0a]) \<and>
   cmd_process_file 0 True (0x05 # 0x00 # replicate 256 0x41 @ [0x41]) = Crashed \<and>
   map_option cstate (final_vars (cmd_process_file 0 True [0x1f, 0x00, 0x02, 0x02, 0x00, 0x00])) =
     Some COMMREC_STRING \<and>
   map_option comment_idx (final_vars (cmd_process_file 0 True [0x1f, 0x00, 0x02, 0x02, 0x00, 0x00])) =
     Some 4 \<and>
   map_option cmd_stdout (final_vars (cmd_process_file 0 True [0x1f, 0x00, 0x02, 0x02, 0x00, 0x00])) =
     Some (bytes_of ''CMD file looks good!'' @ [0x0a]) \<and>
   cmd_process_file 0 True (0x1f # 0x00 # replicate 256 0x41 @ [0x41]) = Crashed"
proof -
  from zero_name_swallows [of "[0x02, 0x02, 0x00, 0x00]" 0 True] obtain v
    where "cmd_loop 0 True cmd_init [0x05, 0x00, 0x02, 0x02, 0x00, 0x00] = Exhausted v"
      "cstate v = FNAMEREC_NAME" "fname_idx v = 4" "cmd_stdout v = []" "extra_bytes v = 0"
    by (auto simp: FNAMEREC_def)
  then have name: "cmd_process_file 0 True [0x05, 0x00, 0x02, 0x02, 0x00, 0x00] =
      Returned 0 (cmd_summary 0 v) []"
    "cstate (cmd_summary 0 v) = FNAMEREC_NAME" "fname_idx (cmd_summary 0 v) = 4"
    "cmd_stdout (cmd_summary 0 v) = bytes_of ''CMD file looks good!'' @ [0x0a]"
    by (simp_all add: cmd_process_file_def cmd_summary_def printf_out_def looks_good_def NL_def)
  from zero_comment_swallows [of "[0x02, 0x02, 0x00, 0x00]" 0 True] obtain u
    where "cmd_loop 0 True cmd_init [0x1f, 0x00, 0x02, 0x02, 0x00, 0x00] = Exhausted u"
      "cstate u = COMMREC_STRING" "comment_idx u = 4" "cmd_stdout u = []" "extra_bytes u = 0"
    by (auto simp: COMMREC_def)
  then have comm: "cmd_process_file 0 True [0x1f, 0x00, 0x02, 0x02, 0x00, 0x00] =
      Returned 0 (cmd_summary 0 u) []"
    "cstate (cmd_summary 0 u) = COMMREC_STRING" "comment_idx (cmd_summary 0 u) = 4"
    "cmd_stdout (cmd_summary 0 u) = bytes_of ''CMD file looks good!'' @ [0x0a]"
    by (simp_all add: cmd_process_file_def cmd_summary_def printf_out_def looks_good_def NL_def)
  have crash1: "cmd_process_file 0 True (0x05 # 0x00 # replicate 256 0x41 @ [0x41]) = Crashed"
    using zero_name_overflows [of "replicate 256 0x41" 0 True "0x41" "[]"]
    by (simp add: cmd_process_file_def FNAMEREC_def)
  have crash2: "cmd_process_file 0 True (0x1f # 0x00 # replicate 256 0x41 @ [0x41]) = Crashed"
    using zero_comment_overflows [of "replicate 256 0x41" 0 True "0x41" "[]"]
    by (simp add: cmd_process_file_def COMMREC_def)
  from name comm crash1 crash2 show ?thesis
    by simp
qed

text \<open>
  Claim C5 (length of a load block).  \<^verbatim>\<open>BLK_LEN\<close> maps n to n + 254 below 3 and to n - 2
  otherwise; 0, 1, 2, 3 and 255 give 254, 255, 256, 1 and 253.  After the type byte, the
  length byte and the two address bytes, the parser is in \<^verbatim>\<open>SKIP_BYTES\<close> for as long as
  fewer payload bytes than that have been read, and back in \<^verbatim>\<open>CMD_HDR\<close> exactly when
  all of them have.
\<close>

theorem load_block_skip:
  "BLK_LEN n = (if n < 3 then n + 254 else n - 2) \<and>
   BLK_LEN 0 = 254 \<and> BLK_LEN 1 = 255 \<and> BLK_LEN 2 = 256 \<and> BLK_LEN 3 = 1 \<and> BLK_LEN 255 = 253 \<and>
   (cstate v = CMD_HDR \<and> length payload \<le> nat (BLK_LEN (uint len)) \<longrightarrow>
      (\<exists>v'. feed (cmd_body q w) v ([LOADBLK, len, lo, hi] @ payload) = Some v' \<and>
            chskip v' = of_nat (nat (BLK_LEN (uint len)) - length payload) \<and>
            cstate v' =
              (if length payload = nat (BLK_LEN (uint len)) then CMD_HDR else SKIP_BYTES)))"
proof (intro conjI impI)
  assume "cstate v = CMD_HDR \<and> length payload \<le> nat (BLK_LEN (uint len))"
  then have "cstate v = CMD_HDR" "length payload \<le> nat (BLK_LEN (uint len))" by simp_all
  from feed_load_block [OF this, of q w lo hi]
  show "\<exists>v'. feed (cmd_body q w) v ([LOADBLK, len, lo, hi] @ payload) = Some v' \<and>
            chskip v' = of_nat (nat (BLK_LEN (uint len)) - length payload) \<and>
            cstate v' =
              (if length payload = nat (BLK_LEN (uint len)) then CMD_HDR else SKIP_BYTES)"
    by blast
qed (simp_all add: BLK_LEN_def)

theorem load_block_skip_witness:
  "cstate cmd_init = CMD_HDR \<and> length [0xaa :: byte] \<le> nat (BLK_LEN (uint (3 :: byte))) \<and>
   map_option cstate (feed (cmd_body 1 False) cmd_init ([LOADBLK, 3, 0x00, 0x52] @ [0xaa])) =
     Some CMD_HDR \<and>
   map_option cstate (feed (cmd_body 1 False) cmd_init ([LOADBLK, 10, 0x00, 0x52] @ [0xaa])) =
     Some SKIP_BYTES"
  using load_block_skip [of _ cmd_init "[0xaa]" 3 1 False "0x00" "0x52"]
    load_block_skip [of _ cmd_init "[0xaa]" 10 1 False "0x00" "0x52"]
  by (auto simp: cmd_init_facts BLK_LEN_def simp del: feed.simps)

text \<open>
  Claim C9 (a format error leaves the partial copy).  When the run ends with status 2,
  \<^verbatim>\<open>main\<close> returns it without looking at the output file; the bytes read, up to and
  including the one at which the error was found, are exactly what has been written to
  the output file if there is one, and the rest of the input is unread.  (A length byte
  cannot exceed 255, so only a bad header byte or transfer address length ends this way.)
\<close>

theorem format_error_keeps_partial_copy:
  assumes "cmd_process_args (file_env.truncate env) opts operands = Args_OK a"
    and "exit_status (cmd_main env opts operands) = Some 2"
  shows "\<exists>v rest consumed. cmd_main env opts operands = Main_Return 2 v rest \<and>
           stream_of env (InputFile a) = consumed @ rest \<and> consumed \<noteq> [] \<and>
           cmd_outfile v = (if OutputFile a \<noteq> None then consumed else [])"
proof (cases "cmd_loop (sint (Quiet a)) (OutputFile a \<noteq> None) cmd_init
                (stream_of env (InputFile a))")
  case (Exhausted v)
  then have "exit_status (cmd_main env opts operands) \<noteq> Some 2"
    using assms(1) by (simp add: cmd_main_def cmd_process_file_def check_output_def)
  with assms(2) show ?thesis by simp
next
  case (Returned r v rest)
  from Returned have r: "r = 2"
    unfolding cmd_loop_def read_loop_Returned by (auto dest: cmd_body_return_2)
  from Returned r assms(1) have m: "cmd_main env opts operands = Main_Return 2 v rest"
    by (simp add: cmd_main_def cmd_process_file_def check_output_def)
  from loop_return_copies [OF Returned] obtain consumed
    where "stream_of env (InputFile a) = consumed @ rest" "consumed \<noteq> []"
      "cmd_outfile v = (if OutputFile a \<noteq> None then consumed else [])"
    by (auto simp: cmd_init_facts)
  with m show ?thesis by blast
next
  case Crashed
  then have "exit_status (cmd_main env opts operands) \<noteq> Some 2"
    using assms(1) by (simp add: cmd_main_def cmd_process_file_def)
  with assms(2) show ?thesis by simp
qed

theorem format_error_keeps_partial_copy_witness:
  "cmd_process_args
     (file_env.truncate \<lparr>fopen_r = (\<lambda>p. True), fopen_w = (\<lambda>p. True),
        stream_of = (\<lambda>s. [0x01, 0x03, 0x00, 0x52, 0xaa, 0x07, 0x02]),
        ferror_OutputFile = False, fclose_fails = False\<rparr>)
     [] [''in.cmd'', ''out.cmd''] =
     Args_OK \<lparr>Quiet = 0, InputFile = Input_File ''in.cmd'', OutputFile = Some ''out.cmd''\<rparr> \<and>
   exit_status (cmd_main
     \<lparr>fopen_r = (\<lambda>p. True), fopen_w = (\<lambda>p. True),
      stream_of = (\<lambda>s. [0x01, 0x03, 0x00, 0x52, 0xaa, 0x07, 0x02]),
      ferror_OutputFile = False, fclose_fails = False\<rparr>
     [] [''in.cmd'', ''out.cmd'']) = Some 2 \<and>
   (\<exists>v. cmd_main
     \<lparr>fopen_r = (\<lambda>p. True), fopen_w = (\<lambda>p. True),
      stream_of = (\<lambda>s. [0x01, 0x03, 0x00, 0x52, 0xaa, 0x07, 0x02]),
      ferror_OutputFile = False, fclose_fails = False\<rparr>
     [] [''in.cmd'', ''out.cmd''] = Main_Return 2 v [0x02] \<and>
     cmd_outfile v = [0x01, 0x03, 0x00, 0x52, 0xaa, 0x07])"
proof -
  let ?env = "\<lparr>fopen_r = (\<lambda>p. True), fopen_w = (\<lambda>p. True),
      stream_of = (\<lambda>s. [0x01, 0x03, 0x00, 0x52, 0xaa, 0x07 :: byte, 0x02]),
      ferror_OutputFile = False, fclose_fails = False\<rparr>"
  let ?a = "\<lparr>Quiet = 0, InputFile = Input_File ''in.cmd'', OutputFile = Some ''out.cmd''\<rparr>"
  have args: "cmd_process_args (file_env.truncate ?env) [] [''in.cmd'', ''out.cmd''] = Args_OK ?a"
    by (simp add: cmd_process_args_def opens_input_def c_char_at_def open_output_def
        file_env.truncate_def)
  have "\<exists>v'. feed (cmd_body 0 True) cmd_init ([LOADBLK, 3, 0x00, 0x52] @ [0xaa]) = Some v' \<and>
      cstate v' = (if length [0xaa :: byte] = nat (BLK_LEN (uint (3 :: byte))) then CMD_HDR
                   else SKIP_BYTES) \<and>
      chskip v' = of_nat (nat (BLK_LEN (uint (3 :: byte))) - length [0xaa :: byte]) \<and>
      cmd_outfile v' = cmd_outfile cmd_init @
        (if True then [LOADBLK, 3, 0x00, 0x52] @ [0xaa] else []) \<and>
      fname v' = fname cmd_init \<and> comment v' = comment cmd_init \<and>
      cmd_stderr v' = cmd_stderr cmd_init \<and> extra_bytes v' = extra_bytes cmd_init \<and>
      (\<exists>out. cmd_stdout v' = cmd_stdout cmd_init @ out)"
    by (rule feed_load_block) (simp_all add: cmd_init_facts BLK_LEN_def)
  then obtain v1 where f: "feed (cmd_body 0 True) cmd_init ([LOADBLK, 3, 0x00, 0x52] @ [0xaa]) = Some v1"
    and v1: "cstate v1 = CMD_HDR"
    by (auto simp: BLK_LEN_def simp del: feed.simps)
  have "\<exists>v. cmd_body 0 True v1 0x07 = Return 2 v"
    using v1
    by (simp add: cmd_body_def cmd_switch_def case_CMD_HDR_def LOADBLK_def XFERADDR_def
        FNAMEREC_def COMMREC_def)
  then obtain v where r: "cmd_body 0 True v1 0x07 = Return 2 v" ..
  have "cmd_loop 0 True cmd_init (([LOADBLK, 3, 0x00, 0x52] @ [0xaa]) @ [0x07, 0x02]) =
      Returned 2 v [0x02]"
    unfolding cmd_loop_def feed_read_loop [OF f] using r by simp
  then have run: "cmd_process_file 0 True [0x01, 0x03, 0x00, 0x52, 0xaa, 0x07, 0x02] =
      Returned 2 v [0x02]"
    by (simp add: cmd_process_file_def LOADBLK_def del: read_loop.simps)
  have main: "cmd_main ?env [] [''in.cmd'', ''out.cmd''] = Main_Return 2 v [0x02]"
    using args run by (simp add: cmd_main_def check_output_def)
  then have status: "exit_status (cmd_main ?env [] [''in.cmd'', ''out.cmd'']) = Some 2"
    by simp
  from format_error_keeps_partial_copy [OF args status] main
  have "cmd_outfile v = [0x01, 0x03, 0x00, 0x52, 0xaa, 0x07]"
    by auto
  with args status main show ?thesis
    by blast
qed

end
